theory Spec2Isabelle
  imports Main "HOL-Library.Char_ord" "HOL-Library.List_Lexorder" "HOL-Library.AList"
begin

unbundle bit_operations_syntax

section \<open>The client ticket cache of gokrb5 (v8/client/cache.go)\<close>

text \<open>
  A shallow embedding of \<^verbatim>\<open>v8/client/cache.go\<close>: the composite cache key, the
  cache operations, the JSON export and the lookup with renewal
  (\<^verbatim>\<open>GetCachedTicket\<close>, \<^verbatim>\<open>renewTicket\<close>).

  Go strings are byte sequences; \<^typ>\<open>string\<close> is a list of 8-bit characters, and the
  order on it (HOL-Library.Char\_ord with HOL-Library.List\_Lexorder) is the bytewise
  lexicographic order that Go's \<^verbatim>\<open><\<close> on strings and \<^verbatim>\<open>sort.Strings\<close> use.
  The mutex of the cache is not modelled: every function below is one sequential call.
\<close>

subsection \<open>base64.StdEncoding.EncodeToString\<close>

text \<open>
  The key function calls Go's standard library. \<^verbatim>\<open>base64.StdEncoding\<close> is the
  encoding of RFC 4648 with the alphabet below and the padding character \<^verbatim>\<open>=\<close>.
  The encoder reads three bytes at a time into
  \<^verbatim>\<open>val := uint(src[si+0])<<16 | uint(src[si+1])<<8 | uint(src[si+2])\<close> and writes
  \<^verbatim>\<open>enc.encode[val>>18&0x3F]\<close>, \<^verbatim>\<open>enc.encode[val>>12&0x3F]\<close>,
  \<^verbatim>\<open>enc.encode[val>>6&0x3F]\<close>, \<^verbatim>\<open>enc.encode[val&0x3F]\<close>; a remainder of one or two
  bytes is encoded with the missing bytes as zero and padded to four characters.
  \<open>val\<close> stays below \<open>2 ^ 24\<close>, so the natural numbers stand for Go's \<^verbatim>\<open>uint\<close>.
\<close>

definition encodeStd :: string where
  "encodeStd = ''ABCDEFGHIJKLMNOPQRSTUVWXYZabcdefghijklmnopqrstuvwxyz0123456789+/''"

definition padChar :: char where
  "padChar = CHR ''=''"

definition sextet :: "nat \<Rightarrow> nat \<Rightarrow> char" where
  "sextet val k = encodeStd ! (drop_bit k val AND 63)"

fun EncodeToString :: "string \<Rightarrow> string" where
  "EncodeToString (a # b # c # src) =
     (let val = push_bit 16 (of_char a) OR push_bit 8 (of_char b) OR of_char c
      in sextet val 18 # sextet val 12 # sextet val 6 # sextet val 0 # EncodeToString src)"
| "EncodeToString [a, b] =
     (let val = push_bit 16 (of_char a) OR push_bit 8 (of_char b)
      in [sextet val 18, sextet val 12, sextet val 6, padChar])"
| "EncodeToString [a] =
     (let val = push_bit 16 (of_char a)
      in [sextet val 18, sextet val 12, padChar, padChar])"
| "EncodeToString [] = []"

subsection \<open>The composite key\<close>

text \<open>
  \<^verbatim>\<open>func key(cname string, spn string) string\<close>:
  \<^verbatim>\<open>return base64(cname) + ":" + base64(spn)\<close>.
\<close>

definition key :: "string \<Rightarrow> string \<Rightarrow> string" where
  "key cname spn = EncodeToString cname @ '':'' @ EncodeToString spn"

subsection \<open>Data\<close>

text \<open>
  \<^verbatim>\<open>time.Time\<close>: an instant, counted in nanoseconds from Go's zero \<^verbatim>\<open>Time\<close>.
  \<^verbatim>\<open>t.After(u)\<close> and \<^verbatim>\<open>t.Before(u)\<close> are the strict comparisons of instants, and
  \<^verbatim>\<open>UTC()\<close> does not change the instant.
\<close>

type_synonym time = int

definition After :: "time \<Rightarrow> time \<Rightarrow> bool" where
  "After t u \<longleftrightarrow> u < t"

definition Before :: "time \<Rightarrow> time \<Rightarrow> bool" where
  "Before t u \<longleftrightarrow> t < u"

text \<open>
  Modelled from the spec: \<^verbatim>\<open>types.PrincipalName\<close>, \<^verbatim>\<open>messages.Ticket\<close> and
  \<^verbatim>\<open>types.EncryptionKey\<close> are declared in packages that are not part of the sources
  at hand. The spec calls the first a structured principal name and the other two opaque
  payloads. The records name the fields that cache.go reads (\<^verbatim>\<open>Ticket.SName\<close>,
  \<^verbatim>\<open>Ticket.Realm\<close>) and keep the rest as uninterpreted bytes. The method
  \<^verbatim>\<open>PrincipalNameString\<close> is a parameter \<open>pns\<close> of every function that calls it.
\<close>

record PrincipalName =
  NameType :: int
  NameString :: "string list"

record Ticket =
  TktVNO :: int
  Realm :: string
  SName :: PrincipalName
  EncPart :: string

record EncryptionKey =
  KeyType :: int
  KeyValue :: string

text \<open>\<^verbatim>\<open>type CacheEntry struct\<close>, field by field.\<close>

record CacheEntry =
  CName :: PrincipalName
  SPN :: string
  Ticket :: Ticket
  AuthTime :: time
  StartTime :: time
  EndTime :: time
  RenewTill :: time
  SessionKey :: EncryptionKey

text \<open>Go's zero values (\<^verbatim>\<open>var tkt messages.Ticket\<close>, a missing map entry).\<close>

definition zero_PrincipalName :: PrincipalName where
  "zero_PrincipalName = \<lparr>NameType = 0, NameString = []\<rparr>"

definition zero_Ticket :: Ticket where
  "zero_Ticket = \<lparr>TktVNO = 0, Realm = [], SName = zero_PrincipalName, EncPart = []\<rparr>"

definition zero_EncryptionKey :: EncryptionKey where
  "zero_EncryptionKey = \<lparr>KeyType = 0, KeyValue = []\<rparr>"

definition zero_CacheEntry :: CacheEntry where
  "zero_CacheEntry =
     \<lparr>CName = zero_PrincipalName, SPN = [], Ticket = zero_Ticket, AuthTime = 0,
      StartTime = 0, EndTime = 0, RenewTill = 0, SessionKey = zero_EncryptionKey\<rparr>"

text \<open>
  \<^verbatim>\<open>type Cache struct { Entries map[string]CacheEntry; mux sync.RWMutex }\<close>.
  The map is an association list with one pair per key (\<open>is_map\<close>). The order of the
  list stands for the order in which \<^verbatim>\<open>range\<close> happens to visit the map, which Go
  leaves unspecified: a statement about every list with the same pairs is a statement
  about every iteration order.
\<close>

record Cache =
  Entries :: "(string \<times> CacheEntry) list"

definition is_map :: "Cache \<Rightarrow> bool" where
  "is_map c \<longleftrightarrow> distinct (map fst (Entries c))"

text \<open>\<^verbatim>\<open>m[k]\<close> yields the zero value for a missing key; \<^verbatim>\<open>e, ok := m[k]\<close> also says so.\<close>

definition index :: "Cache \<Rightarrow> string \<Rightarrow> CacheEntry" where
  "index c k = (case map_of (Entries c) k of Some e \<Rightarrow> e | None \<Rightarrow> zero_CacheEntry)"

definition index_ok :: "Cache \<Rightarrow> string \<Rightarrow> CacheEntry \<times> bool" where
  "index_ok c k = (case map_of (Entries c) k of Some e \<Rightarrow> (e, True) | None \<Rightarrow> (zero_CacheEntry, False))"

subsection \<open>Cache operations\<close>

definition NewCache :: Cache where
  "NewCache = \<lparr>Entries = []\<rparr>"

definition getEntry :: "Cache \<Rightarrow> string \<Rightarrow> string \<Rightarrow> CacheEntry \<times> bool" where
  "getEntry c cname spn = index_ok c (key cname spn)"

text \<open>
  \<^verbatim>\<open>addEntry\<close> stores the entry under the key of the two principal strings and
  returns \<^verbatim>\<open>c.Entries[k]\<close>; the model returns that entry and the cache.
\<close>

definition addEntry ::
  "(PrincipalName \<Rightarrow> string) \<Rightarrow> Cache \<Rightarrow> PrincipalName \<Rightarrow> Ticket \<Rightarrow> time \<Rightarrow> time \<Rightarrow> time \<Rightarrow> time
    \<Rightarrow> EncryptionKey \<Rightarrow> CacheEntry \<times> Cache" where
  "addEntry pns c cname tkt authTime startTime endTime renewTill sessionKey =
     (let spn = pns (SName tkt);
          k = key (pns cname) spn;
          c' = c\<lparr>Entries := AList.update k
                 \<lparr>CName = cname, SPN = spn, Ticket = tkt, AuthTime = authTime,
                  StartTime = startTime, EndTime = endTime, RenewTill = renewTill,
                  SessionKey = sessionKey\<rparr> (Entries c)\<rparr>
      in (index c' k, c'))"

text \<open>\<^verbatim>\<open>clear\<close>: \<^verbatim>\<open>for k := range c.Entries { delete(c.Entries, k) }\<close>.\<close>

definition clear :: "Cache \<Rightarrow> Cache" where
  "clear c = c\<lparr>Entries := fold AList.delete (map fst (Entries c)) (Entries c)\<rparr>"

definition RemoveEntry :: "Cache \<Rightarrow> string \<Rightarrow> string \<Rightarrow> Cache" where
  "RemoveEntry c cname spn = c\<lparr>Entries := AList.delete (key cname spn) (Entries c)\<rparr>"

text \<open>
  Every entry that \<^verbatim>\<open>addEntry\<close> stores sits under the key of its own \<^verbatim>\<open>CName\<close>
  and of its ticket's \<^verbatim>\<open>SName\<close>. The operations above keep that (lemmas
  \<open>keys_derived_NewCache\<close> to \<open>keys_derived_RemoveEntry\<close>).
\<close>

definition entry_key :: "(PrincipalName \<Rightarrow> string) \<Rightarrow> CacheEntry \<Rightarrow> string" where
  "entry_key pns e = key (pns (CName e)) (pns (SName (Ticket e)))"

definition keys_derived :: "(PrincipalName \<Rightarrow> string) \<Rightarrow> Cache \<Rightarrow> bool" where
  "keys_derived pns c \<longleftrightarrow> list_all (\<lambda>(k, e). k = entry_key pns e) (Entries c)"

subsection \<open>JSON export\<close>

text \<open>
  \<^verbatim>\<open>json.MarshalIndent\<close> is Go's standard library. It walks the exported fields of a
  struct in the order of their declaration and leaves out a field whose tag is
  \<^verbatim>\<open>json:"-"\<close>: in \<^verbatim>\<open>CacheEntry\<close> these are \<^verbatim>\<open>Ticket\<close> and \<^verbatim>\<open>SessionKey\<close>.
  \<open>jvalue\<close> is the tree the encoder walks; how it is printed (quoting, the text of
  a \<^verbatim>\<open>time.Time\<close>, indentation, the errors) is the parameter \<open>MarshalIndent\<close> of
  \<open>JSON\<close>. A Go slice is a list here, and the empty list stands for the nil slice:
  it is what the zero value of \<^verbatim>\<open>PrincipalName\<close> holds, and what \<^verbatim>\<open>es\<close> is when the
  cache is empty. The encoder writes \<^verbatim>\<open>null\<close> for it. (A slice that is empty and not
  nil, which the encoder writes as \<^verbatim>\<open>[]\<close>, has no counterpart in the model.)
\<close>

datatype jvalue =
    JNull
  | JInt int
  | JStr string
  | JTime time
  | JArr "jvalue list"
  | JObj "(string \<times> jvalue) list"

definition json_PrincipalName :: "PrincipalName \<Rightarrow> jvalue" where
  "json_PrincipalName p =
     JObj [(''NameType'', JInt (NameType p)),
           (''NameString'', if NameString p = [] then JNull else JArr (map JStr (NameString p)))]"

definition json_CacheEntry :: "CacheEntry \<Rightarrow> jvalue" where
  "json_CacheEntry e =
     JObj [(''CName'', json_PrincipalName (CName e)),
           (''SPN'', JStr (SPN e)),
           (''AuthTime'', JTime (AuthTime e)),
           (''StartTime'', JTime (StartTime e)),
           (''EndTime'', JTime (EndTime e)),
           (''RenewTill'', JTime (RenewTill e))]"

definition json_entries :: "CacheEntry list \<Rightarrow> jvalue" where
  "json_entries es = (if es = [] then JNull else JArr (map json_CacheEntry es))"

text \<open>
  Lines 57 to 65 of \<^verbatim>\<open>JSON\<close>: collect the keys, \<^verbatim>\<open>sort.Strings(keys)\<close>, then
  \<^verbatim>\<open>es = append(es, c.Entries[k])\<close> for each key in that order.
\<close>

definition sorted_entries :: "Cache \<Rightarrow> CacheEntry list" where
  "sorted_entries c =
     (let keys = map fst (Entries c);
          keys = sort keys
      in map (index c) keys)"

text \<open>Lines 66 to 70: marshal; on an error return the empty string and the error.\<close>

definition JSON ::
  "(jvalue \<Rightarrow> string \<Rightarrow> string \<Rightarrow> 'm + string) \<Rightarrow> Cache \<Rightarrow> string \<times> 'm option" where
  "JSON MarshalIndent c =
     (let es = sorted_entries c
      in case MarshalIndent (json_entries es) [] ''  '' of
           Inl err \<Rightarrow> ([], Some err)
         | Inr b \<Rightarrow> (b, None))"

text \<open>
  \<open>without_secrets\<close> blanks the two secret fields of an entry; two entries that
  differ in nothing else have the same image.
\<close>

definition without_secrets :: "CacheEntry \<Rightarrow> CacheEntry" where
  "without_secrets e = e\<lparr>Ticket := zero_Ticket, SessionKey := zero_EncryptionKey\<rparr>"

subsection \<open>The client: clock, exchange, log\<close>

text \<open>
  \<^verbatim>\<open>GetCachedTicket\<close> and \<^verbatim>\<open>renewTicket\<close> are methods of \<^verbatim>\<open>Client\<close>. Of the
  client they use the cache, the log and the ticket-granting exchange; they also read
  the system clock. The record holds the cache and what a call can observe or leave
  behind:
  \<^item> \<open>clock\<close> and \<open>ticks\<close>: \<open>clock cl n\<close> is what the \<open>n\<close>-th reading of
    \<^verbatim>\<open>time.Now()\<close> returns, \<open>ticks\<close> counts the readings made so far (the code reads
    the clock anew in each comparison);
  \<^item> \<open>exchanges\<close>: the arguments of every call of \<^verbatim>\<open>TGSREQGenerateAndExchange\<close>, in
    order;
  \<^item> \<open>logged\<close>: the calls of \<^verbatim>\<open>cl.Log\<close>, format and arguments.
\<close>

type_synonym exchange_args = "PrincipalName \<times> string \<times> Ticket \<times> EncryptionKey \<times> bool"

datatype log_arg = LStr string | LTime time

record Client =
  cache :: Cache
  clock :: "nat \<Rightarrow> time"
  ticks :: nat
  exchanges :: "exchange_args list"
  logged :: "(string \<times> log_arg list) list"

definition time_Now :: "Client \<Rightarrow> time \<times> Client" where
  "time_Now cl = (clock cl (ticks cl), cl\<lparr>ticks := Suc (ticks cl)\<rparr>)"

definition Log :: "string \<Rightarrow> log_arg list \<Rightarrow> Client \<Rightarrow> Client" where
  "Log format args cl = cl\<lparr>logged := logged cl @ [(format, args)]\<rparr>"

text \<open>
  \<^verbatim>\<open>TGSREQGenerateAndExchange(spn, kdcRealm, tgt, sessionKey, renewal)\<close> is defined
  elsewhere in the package. It is the parameter \<open>X\<close>: given its arguments and the cache,
  it returns its error (\<open>None\<close> for \<^verbatim>\<open>nil\<close>) and the cache as the call leaves it.
  The two messages it also returns are discarded by the caller. The wrapper records
  the call.

  A Go \<^verbatim>\<open>error\<close> is an interface value. The model keeps what a caller can tell of
  it: its dynamic type and its content. \<open>errorString s\<close> is the \<^verbatim>\<open>*errors.errorString\<close>
  with text \<open>s\<close> that \<^verbatim>\<open>errors.New(s)\<close> returns; \<open>OtherError x\<close> is an error of any
  other type (\<open>'x\<close> is left open). The address of an \<^verbatim>\<open>errorString\<close> is not kept:
  cache.go stores the error of line 140 in no variable, so no caller has a value to
  compare it with by identity. The exchange may return any error, an
  \<^verbatim>\<open>errorString\<close> included.
\<close>

datatype 'x error = errorString string | OtherError 'x

type_synonym 'x exchange = "exchange_args \<Rightarrow> Cache \<Rightarrow> 'x error option \<times> Cache"

definition TGSREQGenerateAndExchange ::
  "'x exchange \<Rightarrow> exchange_args \<Rightarrow> Client \<Rightarrow> 'x error option \<times> Client" where
  "TGSREQGenerateAndExchange X args cl =
     (let (err, c') = X args (cache cl)
      in (err, cl\<lparr>cache := c', exchanges := exchanges cl @ [args]\<rparr>))"

subsection \<open>renewTicket and GetCachedTicket\<close>

text \<open>
  \<^verbatim>\<open>renewTicket\<close>. The exchange is called with
  \<^verbatim>\<open>(spn, e.Ticket.Realm, e.Ticket, e.SessionKey, true)\<close>, and its error is returned as
  it is, with the entry that was passed in. In \<^verbatim>\<open>e, ok := cl.cache.getEntry(...)\<close>
  the variable \<^verbatim>\<open>e\<close> is the parameter, assigned anew: when the entry is missing the
  function returns the zero entry with its error.
\<close>

definition renewTicket ::
  "'x exchange \<Rightarrow> (PrincipalName \<Rightarrow> string) \<Rightarrow> CacheEntry \<Rightarrow> Client
    \<Rightarrow> (CacheEntry \<times> 'x error option) \<times> Client" where
  "renewTicket X pns e cl =
     (let spn = SName (Ticket e);
          (err, cl1) =
            TGSREQGenerateAndExchange X (spn, Realm (Ticket e), Ticket e, SessionKey e, True) cl
      in case err of
           Some x \<Rightarrow> ((e, Some x), cl1)
         | None \<Rightarrow>
             (let (e', ok) = getEntry (cache cl1) (pns (CName e)) (pns (SName (Ticket e)))
              in if \<not> ok then ((e', Some (errorString ''ticket was not added to cache'')), cl1)
                 else ((e', None),
                       Log ''ticket renewed for %s (EndTime: %v)'' [LStr (pns spn), LTime (EndTime e')] cl1)))"

text \<open>
  The condition of line 113,
  \<^verbatim>\<open>time.Now().UTC().After(e.StartTime) && time.Now().UTC().Before(e.EndTime)\<close>:
  the second reading of the clock happens only when the first comparison holds.
\<close>

definition within_window :: "CacheEntry \<Rightarrow> Client \<Rightarrow> bool \<times> Client" where
  "within_window e cl =
     (let (t1, cl1) = time_Now cl
      in if After t1 (StartTime e)
         then (let (t2, cl2) = time_Now cl1 in (Before t2 (EndTime e), cl2))
         else (False, cl1))"

definition GetCachedTicket ::
  "'x exchange \<Rightarrow> (PrincipalName \<Rightarrow> string) \<Rightarrow> string \<Rightarrow> string \<Rightarrow> Client
    \<Rightarrow> (Ticket \<times> EncryptionKey \<times> bool) \<times> Client" where
  "GetCachedTicket X pns cname spn cl =
     (let (e, ok) = getEntry (cache cl) cname spn
      in if ok
         then (let (valid, cl1) = within_window e cl
               in if valid
                  then ((Ticket e, SessionKey e, True),
                        Log ''ticket received from cache for %s'' [LStr spn] cl1)
                  else (let (now, cl2) = time_Now cl1
                        in if Before now (RenewTill e)
                           then (let ((e', err), cl3) = renewTicket X pns e cl2
                                 in if err \<noteq> None
                                    then ((Ticket e', SessionKey e', False), cl3)
                                    else ((Ticket e', SessionKey e', True), cl3))
                           else ((zero_Ticket, zero_EncryptionKey, False), cl2)))
         else ((zero_Ticket, zero_EncryptionKey, False), cl))"

subsection \<open>A worked scenario\<close>

text \<open>
  The end-to-end scenario of the spec: client \<^verbatim>\<open>alice\<close>, service
  \<^verbatim>\<open>HTTP/server\<close>, a ticket valid from 10 to 20 and renewable until 30, and
  exchanges that renew it (\<open>renew_ok\<close>), fail (\<open>renew_fails\<close>), or report success
  and leave no entry behind (\<open>renew_unreliable\<close> and \<open>renew_same_text\<close>, which fail
  on an empty cache, the second with an error string of the text that line 140 uses).
\<close>

definition join_name :: "PrincipalName \<Rightarrow> string" where
  "join_name p = (case NameString p of [] \<Rightarrow> [] | s # ss \<Rightarrow> foldl (\<lambda>a b. a @ ''/'' @ b) s ss)"

definition alice :: PrincipalName where
  "alice = \<lparr>NameType = 1, NameString = [''alice'']\<rparr>"

definition http_server :: PrincipalName where
  "http_server = \<lparr>NameType = 2, NameString = [''HTTP'', ''server'']\<rparr>"

definition old_ticket :: Ticket where
  "old_ticket = \<lparr>TktVNO = 5, Realm = ''EXAMPLE.COM'', SName = http_server, EncPart = ''old-ticket''\<rparr>"

definition new_ticket :: Ticket where
  "new_ticket = \<lparr>TktVNO = 5, Realm = ''EXAMPLE.COM'', SName = http_server, EncPart = ''new-ticket''\<rparr>"

definition old_key :: EncryptionKey where
  "old_key = \<lparr>KeyType = 18, KeyValue = ''old-key''\<rparr>"

definition new_key :: EncryptionKey where
  "new_key = \<lparr>KeyType = 18, KeyValue = ''new-key''\<rparr>"

definition old_entry :: CacheEntry where
  "old_entry =
     \<lparr>CName = alice, SPN = ''HTTP/server'', Ticket = old_ticket, AuthTime = 5,
      StartTime = 10, EndTime = 20, RenewTill = 30, SessionKey = old_key\<rparr>"

definition new_entry :: CacheEntry where
  "new_entry =
     \<lparr>CName = alice, SPN = ''HTTP/server'', Ticket = new_ticket, AuthTime = 5,
      StartTime = 21, EndTime = 29, RenewTill = 30, SessionKey = new_key\<rparr>"

definition ldap_ticket :: Ticket where
  "ldap_ticket =
     \<lparr>TktVNO = 5, Realm = ''EXAMPLE.COM'',
      SName = \<lparr>NameType = 2, NameString = [''ldap'', ''dc'']\<rparr>, EncPart = ''ldap-ticket''\<rparr>"

definition ldap_entry :: CacheEntry where
  "ldap_entry =
     \<lparr>CName = alice, SPN = ''ldap/dc'', Ticket = ldap_ticket, AuthTime = 6,
      StartTime = 11, EndTime = 21, RenewTill = 31, SessionKey = new_key\<rparr>"

definition client_at :: "Cache \<Rightarrow> time \<Rightarrow> Client" where
  "client_at c now = \<lparr>cache = c, clock = (\<lambda>n. now), ticks = 0, exchanges = [], logged = []\<rparr>"

definition old_cache :: Cache where
  "old_cache = \<lparr>Entries = [(key ''alice'' ''HTTP/server'', old_entry)]\<rparr>"

definition new_cache :: Cache where
  "new_cache = \<lparr>Entries = [(key ''alice'' ''HTTP/server'', new_entry)]\<rparr>"

definition renew_ok :: "string exchange" where
  "renew_ok args c = (None, snd (addEntry join_name c alice new_ticket 5 21 29 30 new_key))"

definition renew_fails :: "string exchange" where
  "renew_fails args c = (Some (OtherError ''KDC unreachable''), c)"

definition renew_unreliable :: "string exchange" where
  "renew_unreliable args c =
     (if Entries c = [] then (Some (OtherError ''no ticket to renew''), c)
      else (None, RemoveEntry c ''alice'' ''HTTP/server''))"

definition renew_same_text :: "string exchange" where
  "renew_same_text args c =
     (if Entries c = [] then (Some (errorString ''ticket was not added to cache''), c)
      else (None, RemoveEntry c ''alice'' ''HTTP/server''))"

text \<open>
  The same entry with another ticket and another session key, and the two orders of
  inserting a ticket for \<^verbatim>\<open>HTTP/server\<close> and one for \<^verbatim>\<open>ldap/dc\<close>.
\<close>

definition other_secrets_cache :: Cache where
  "other_secrets_cache =
     \<lparr>Entries = [(key ''alice'' ''HTTP/server'',
                  old_entry\<lparr>Ticket := new_ticket, SessionKey := new_key\<rparr>)]\<rparr>"

definition http_then_ldap :: Cache where
  "http_then_ldap =
     snd (addEntry join_name (snd (addEntry join_name NewCache alice old_ticket 5 10 20 30 old_key))
            alice ldap_ticket 6 11 21 31 new_key)"

definition ldap_then_http :: Cache where
  "ldap_then_http =
     snd (addEntry join_name (snd (addEntry join_name NewCache alice ldap_ticket 6 11 21 31 new_key))
            alice old_ticket 5 10 20 30 old_key)"

section \<open>Properties\<close>

subsection \<open>The base64 encoding is injective and never writes a colon\<close>

text \<open>
  Four characters of the alphabet determine the 24 bits they encode, the padding
  character is not in the alphabet, and neither is the colon.
\<close>

lemma length_encodeStd: "length encodeStd = 64"
  by (simp add: encodeStd_def)

lemma distinct_encodeStd: "distinct encodeStd"
  by (simp add: encodeStd_def)

text \<open>The encoder on the test vectors of RFC 4648, section 10, and on a key.\<close>

lemma EncodeToString_test_vectors:
  "EncodeToString [] = []"
  "EncodeToString ''f'' = ''Zg==''"
  "EncodeToString ''fo'' = ''Zm8=''"
  "EncodeToString ''foo'' = ''Zm9v''"
  "EncodeToString ''foob'' = ''Zm9vYg==''"
  "EncodeToString ''fooba'' = ''Zm9vYmE=''"
  "EncodeToString ''foobar'' = ''Zm9vYmFy''"
  by (simp_all add: Let_def sextet_def encodeStd_def padChar_def)

lemma key_alice_http: "key ''alice'' ''HTTP/server'' = ''YWxpY2U=:SFRUUC9zZXJ2ZXI=''"
  by (simp add: key_def Let_def sextet_def encodeStd_def padChar_def)

lemma key_alice_ldap: "key ''alice'' ''ldap/dc'' = ''YWxpY2U=:bGRhcC9kYw==''"
  by (simp add: key_def Let_def sextet_def encodeStd_def padChar_def)

lemma sextet_index: "drop_bit k val AND (63::nat) = val div 2 ^ k mod 64"
proof -
  have "drop_bit k val AND (63::nat) = take_bit 6 (drop_bit k val)"
    by (simp add: take_bit_eq_mask mask_eq_exp_minus_1)
  then show ?thesis
    by (simp add: take_bit_eq_mod drop_bit_eq_div)
qed

lemma not_bit_small:
  fixes y :: nat
  assumes "y < 2 ^ n" "n \<le> m"
  shows "\<not> bit y m"
proof -
  have "(2::nat) ^ n \<le> 2 ^ m" using assms(2) by simp
  then have "y < 2 ^ m" using assms(1) by linarith
  then show ?thesis by (simp add: bit_iff_odd)
qed

lemma push_and_zero:
  fixes x y :: nat
  assumes "y < 2 ^ n"
  shows "push_bit n x AND y = 0"
  by (rule bit_eqI) (auto simp add: bit_simps not_bit_small [OF assms])

lemma push_or_plus:
  fixes x y :: nat
  assumes "y < 2 ^ n"
  shows "push_bit n x OR y = x * 2 ^ n + y"
  using push_and_zero [OF assms, of x]
  by (simp add: disjunctive_add_eq_or [symmetric] push_bit_eq_mult)

lemma val_sum3:
  fixes x y z :: nat
  assumes "y < 256" "z < 256"
  shows "push_bit 16 x OR push_bit 8 y OR z = x * 65536 + y * 256 + z"
proof -
  have "push_bit 8 y OR z = y * 256 + z"
    using push_or_plus [of z 8 y] assms by simp
  moreover have "push_bit 16 x OR (y * 256 + z) = x * 65536 + (y * 256 + z)"
    using push_or_plus [of "y * 256 + z" 16 x] assms by simp
  ultimately show ?thesis by (simp add: or.assoc)
qed

lemma of_char_bound: "of_char c < (256::nat)"
proof -
  have "(of_char c :: nat) mod 256 < 256" by (rule mod_less_divisor) simp
  then show ?thesis by (simp only: of_char_mod_256)
qed

lemma div_mod_64_eq:
  fixes x y :: nat
  assumes "x div 64 = y div 64" "x mod 64 = y mod 64"
  shows "x = y"
  using assms by (metis div_mult_mod_eq)

lemma sextets_inj:
  fixes v w :: nat
  assumes "v < 16777216" "w < 16777216"
    and "v div 262144 mod 64 = w div 262144 mod 64"
    and "v div 4096 mod 64 = w div 4096 mod 64"
    and "v div 64 mod 64 = w div 64 mod 64"
    and "v mod 64 = w mod 64"
  shows "v = w"
proof -
  have "v div 262144 < 64" "w div 262144 < 64"
    using assms(1,2) by linarith+
  with assms(3) have e18: "v div 262144 = w div 262144" by simp
  have "v div 4096 div 64 = v div 262144" "w div 4096 div 64 = w div 262144"
    by (simp_all only: div_mult2_eq [symmetric]) simp_all
  with e18 have "v div 4096 div 64 = w div 4096 div 64" by simp
  with assms(4) have e12: "v div 4096 = w div 4096"
    by (rule div_mod_64_eq [rotated -1])
  have "v div 64 div 64 = v div 4096" "w div 64 div 64 = w div 4096"
    by (simp_all only: div_mult2_eq [symmetric]) simp_all
  with e12 have "v div 64 div 64 = w div 64 div 64" by simp
  with assms(5) have e6: "v div 64 = w div 64"
    by (rule div_mod_64_eq [rotated -1])
  from e6 assms(6) show ?thesis
    by (rule div_mod_64_eq)
qed

lemma sextet_alt: "sextet val k = encodeStd ! (val div 2 ^ k mod 64)"
  by (simp only: sextet_def sextet_index)

lemma encodeStd_nth_inj:
  assumes "i < 64" "j < 64" "encodeStd ! i = encodeStd ! j"
  shows "i = j"
  using assms distinct_encodeStd
  by (simp add: nth_eq_iff_index_eq length_encodeStd)

lemma sextet_eq_iff:
  "sextet v k = sextet w k \<longleftrightarrow> v div 2 ^ k mod 64 = w div 2 ^ k mod 64"
proof
  assume "sextet v k = sextet w k"
  then have "encodeStd ! (v div 2 ^ k mod 64) = encodeStd ! (w div 2 ^ k mod 64)"
    by (simp only: sextet_alt)
  then show "v div 2 ^ k mod 64 = w div 2 ^ k mod 64"
    by (rule encodeStd_nth_inj [rotated 2]) simp_all
next
  assume "v div 2 ^ k mod 64 = w div 2 ^ k mod 64"
  then show "sextet v k = sextet w k" by (simp only: sextet_alt)
qed

lemma sextet_in_alphabet: "sextet v k \<in> set encodeStd"
  unfolding sextet_alt by (rule nth_mem) (simp add: length_encodeStd)

lemma pad_not_in_alphabet: "padChar \<notin> set encodeStd"
  by (simp add: encodeStd_def padChar_def)

lemma colon_not_in_alphabet: "CHR '':'' \<notin> set encodeStd"
  by (simp add: encodeStd_def)

lemma sextet_ne_pad [simp]: "sextet v k \<noteq> padChar" "padChar \<noteq> sextet v k"
  using sextet_in_alphabet [of v k] pad_not_in_alphabet by auto

lemma sextet_ne_colon [simp]: "sextet v k \<noteq> CHR '':''"
  using sextet_in_alphabet [of v k] colon_not_in_alphabet by auto

lemma base_split:
  fixes q r q' r' n :: nat
  assumes "r < n" "r' < n" "q * n + r = q' * n + r'"
  shows "q = q' \<and> r = r'"
proof -
  have "(q * n + r) div n = q" "(q' * n + r') div n = q'"
    "(q * n + r) mod n = r" "(q' * n + r') mod n = r'"
    using assms(1,2) by simp_all
  with assms(3) show ?thesis by metis
qed

lemma val_inj:
  fixes x y z x' y' z' :: nat
  assumes b: "x < 256" "y < 256" "z < 256" "x' < 256" "y' < 256" "z' < 256"
    and v: "v = x * 65536 + y * 256 + z" and w: "w = x' * 65536 + y' * 256 + z'"
    and s: "sextet v 18 = sextet w 18" "sextet v 12 = sextet w 12"
      "sextet v 6 = sextet w 6" "sextet v 0 = sextet w 0"
  shows "x = x' \<and> y = y' \<and> z = z'"
proof -
  have "v < 16777216" "w < 16777216" using b v w by linarith+
  moreover from s have "v div 262144 mod 64 = w div 262144 mod 64" "v div 4096 mod 64 = w div 4096 mod 64"
    "v div 64 mod 64 = w div 64 mod 64" "v mod 64 = w mod 64"
    by (simp_all add: sextet_eq_iff)
  ultimately have "v = w" by (rule sextets_inj)
  then have "v = w" .
  have "(x * 256 + y) * 256 + z = v" "(x' * 256 + y') * 256 + z' = w"
    unfolding v w by (simp_all add: algebra_simps)
  with \<open>v = w\<close> have "(x * 256 + y) * 256 + z = (x' * 256 + y') * 256 + z'"
    by simp
  with b(3,6) have zz: "x * 256 + y = x' * 256 + y' \<and> z = z'"
    by (rule base_split)
  then have "x * 256 + y = x' * 256 + y'" by (rule conjunct1)
  with b(2,5) have "x = x' \<and> y = y'"
    by (rule base_split)
  with zz show ?thesis by blast
qed

lemma val_sum2:
  fixes x y :: nat
  assumes "y < 256"
  shows "push_bit 16 x OR push_bit 8 y = x * 65536 + y * 256 + 0"
  using val_sum3 [of y 0 x] assms by simp

lemma val_sum1:
  fixes x :: nat
  shows "push_bit 16 x = x * 65536 + 0 * 256 + 0"
  by (simp add: push_bit_eq_mult)

lemma low_sextet_zero:
  fixes x y :: nat
  shows "sextet (x * 65536 + y * 256 + 0) 0 = sextet 0 0"
proof -
  have "x * 65536 + y * 256 = (x * 1024 + y * 4) * 64" by simp
  then have "(x * 65536 + y * 256) mod 64 = 0" by (simp only: mod_mult_self2_is_0)
  then show ?thesis by (simp add: sextet_eq_iff)
qed

lemma mid_sextet_zero:
  fixes x :: nat
  shows "sextet (x * 65536 + 0 * 256 + 0) 6 = sextet 0 6"
proof -
  have "x * 65536 div 64 = x * 1024" by simp
  moreover have "x * 1024 = (x * 16) * 64" by simp
  then have "x * 1024 mod 64 = 0" by (simp only: mod_mult_self2_is_0)
  ultimately show ?thesis by (simp add: sextet_eq_iff)
qed

lemma group3_inj:
  assumes "sextet (push_bit 16 (of_char a) OR push_bit 8 (of_char b) OR of_char c) 18
         = sextet (push_bit 16 (of_char a') OR push_bit 8 (of_char b') OR of_char c') 18"
    and "sextet (push_bit 16 (of_char a) OR push_bit 8 (of_char b) OR of_char c) 12
         = sextet (push_bit 16 (of_char a') OR push_bit 8 (of_char b') OR of_char c') 12"
    and "sextet (push_bit 16 (of_char a) OR push_bit 8 (of_char b) OR of_char c) 6
         = sextet (push_bit 16 (of_char a') OR push_bit 8 (of_char b') OR of_char c') 6"
    and "sextet (push_bit 16 (of_char a) OR push_bit 8 (of_char b) OR of_char c) 0
         = sextet (push_bit 16 (of_char a') OR push_bit 8 (of_char b') OR of_char c') 0"
  shows "a = a' \<and> b = b' \<and> c = c'"
proof -
  have "(of_char a :: nat) = of_char a' \<and> (of_char b :: nat) = of_char b' \<and> (of_char c :: nat) = of_char c'"
    using assms
    by (intro val_inj [OF _ _ _ _ _ _ refl refl])
      (simp_all only: of_char_bound val_sum3 [OF of_char_bound of_char_bound])
  then show ?thesis by simp
qed

lemma group2_inj:
  assumes "sextet (push_bit 16 (of_char a) OR push_bit 8 (of_char b)) 18
         = sextet (push_bit 16 (of_char a') OR push_bit 8 (of_char b')) 18"
    and "sextet (push_bit 16 (of_char a) OR push_bit 8 (of_char b)) 12
         = sextet (push_bit 16 (of_char a') OR push_bit 8 (of_char b')) 12"
    and "sextet (push_bit 16 (of_char a) OR push_bit 8 (of_char b)) 6
         = sextet (push_bit 16 (of_char a') OR push_bit 8 (of_char b')) 6"
  shows "a = a' \<and> b = b'"
proof -
  let ?v = "of_char a * 65536 + of_char b * 256 + (0::nat)"
  let ?w = "of_char a' * 65536 + of_char b' * 256 + (0::nat)"
  have s: "sextet ?v 18 = sextet ?w 18" "sextet ?v 12 = sextet ?w 12" "sextet ?v 6 = sextet ?w 6"
    using assms by (simp_all only: val_sum2 [OF of_char_bound])
  have "sextet ?v 0 = sextet ?w 0"
    by (simp only: low_sextet_zero)
  with s have "(of_char a :: nat) = of_char a' \<and> (of_char b :: nat) = of_char b' \<and> (0::nat) = 0"
    by (intro val_inj [OF of_char_bound of_char_bound _ of_char_bound of_char_bound _ refl refl]) simp_all
  then show ?thesis by simp
qed

lemma group1_inj:
  assumes "sextet (push_bit 16 (of_char a)) 18 = sextet (push_bit 16 (of_char a')) 18"
    and "sextet (push_bit 16 (of_char a)) 12 = sextet (push_bit 16 (of_char a')) 12"
  shows "a = a'"
proof -
  let ?v = "of_char a * 65536 + 0 * 256 + (0::nat)"
  let ?w = "of_char a' * 65536 + 0 * 256 + (0::nat)"
  have s: "sextet ?v 18 = sextet ?w 18" "sextet ?v 12 = sextet ?w 12"
    using assms by (simp_all only: val_sum1)
  have "sextet ?v 6 = sextet ?w 6" "sextet ?v 0 = sextet ?w 0"
    by (simp_all only: low_sextet_zero mid_sextet_zero)
  with s have "(of_char a :: nat) = of_char a' \<and> (0::nat) = 0 \<and> (0::nat) = 0"
    by (intro val_inj [OF of_char_bound _ _ of_char_bound _ _ refl refl]) simp_all
  then show ?thesis by simp
qed

lemma EncodeToString_eq_Nil: "EncodeToString xs = [] \<longleftrightarrow> xs = []"
  by (cases xs rule: EncodeToString.cases) (simp_all add: Let_def)

lemma EncodeToString_inj:
  "EncodeToString xs = EncodeToString ys \<Longrightarrow> xs = ys"
proof (induction xs arbitrary: ys rule: EncodeToString.induct)
  case (1 a b c src)
  show ?case
  proof (cases ys rule: EncodeToString.cases)
    case (1 a' b' c' src')
    with "1.prems" have tails: "EncodeToString src = EncodeToString src'"
      by (simp add: Let_def)
    have heads: "a = a' \<and> b = b' \<and> c = c'"
      by (rule group3_inj) (use 1 "1.prems" in \<open>simp_all add: Let_def\<close>)
    from tails "1.IH" have "src = src'" by blast
    with heads 1 show ?thesis by simp
  next
    case (2 a' b')
    with "1.prems" show ?thesis by (simp add: Let_def)
  next
    case (3 a')
    with "1.prems" show ?thesis by (simp add: Let_def)
  next
    case 4
    with "1.prems" show ?thesis by (simp add: Let_def)
  qed
next
  case (2 a b)
  show ?case
  proof (cases ys rule: EncodeToString.cases)
    case (1 a' b' c' src')
    with "2.prems" show ?thesis by (simp add: Let_def)
  next
    case (2 a' b')
    have "a = a' \<and> b = b'"
      by (rule group2_inj) (use 2 "2.prems" in \<open>simp_all add: Let_def\<close>)
    with 2 show ?thesis by simp
  next
    case (3 a')
    with "2.prems" show ?thesis by (simp add: Let_def)
  next
    case 4
    with "2.prems" show ?thesis by (simp add: Let_def)
  qed
next
  case (3 a)
  show ?case
  proof (cases ys rule: EncodeToString.cases)
    case (1 a' b' c' src')
    with "3.prems" show ?thesis by (simp add: Let_def)
  next
    case (2 a' b')
    with "3.prems" show ?thesis by (simp add: Let_def)
  next
    case (3 a')
    have "a = a'"
      by (rule group1_inj) (use 3 "3.prems" in \<open>simp_all add: Let_def\<close>)
    with 3 show ?thesis by simp
  next
    case 4
    with "3.prems" show ?thesis by (simp add: Let_def)
  qed
next
  case 4
  then have "EncodeToString ys = []" by simp
  then show ?case by (simp only: EncodeToString_eq_Nil)
qed

lemma colon_not_pad: "CHR '':'' \<noteq> padChar"
  by (simp add: padChar_def)

lemma colon_notin_EncodeToString: "CHR '':'' \<notin> set (EncodeToString xs)"
  by (induction xs rule: EncodeToString.induct)
    (simp_all add: Let_def colon_not_pad sextet_ne_colon [symmetric])

lemma split_at_separator:
  assumes "s \<notin> set xs" "s \<notin> set xs'" "xs @ s # ys = xs' @ s # ys'"
  shows "xs = xs' \<and> ys = ys'"
  using assms
proof (induction xs arbitrary: xs')
  case Nil
  then show ?case by (cases xs') auto
next
  case (Cons x xs)
  then show ?case by (cases xs') auto
qed

lemma key_inj: "key a b = key c d \<Longrightarrow> a = c \<and> b = d"
proof -
  assume "key a b = key c d"
  then have "EncodeToString a @ CHR '':'' # EncodeToString b
      = EncodeToString c @ CHR '':'' # EncodeToString d"
    by (simp add: key_def)
  with colon_notin_EncodeToString colon_notin_EncodeToString
  have "EncodeToString a = EncodeToString c \<and> EncodeToString b = EncodeToString d"
    by (rule split_at_separator)
  then show ?thesis by (blast dest: EncodeToString_inj)
qed

subsection \<open>The key\<close>

text \<open>
  C6: the key encoding is injective. Two different pairs of strings never have the
  same key, whether one string is a prefix or a substring of another or contains the
  separator \<^verbatim>\<open>:\<close>.
\<close>

theorem key_injective: "(a, b) \<noteq> (c, d) \<Longrightarrow> key a b \<noteq> key c d"
  using key_inj [of a b c d] by blast

theorem key_injective_witness:
  "(''a'', '':b'') \<noteq> (''a:'', ''b'') \<and> key ''a'' '':b'' \<noteq> key ''a:'' ''b''
   \<and> (''ab'', ''c'') \<noteq> (''a'', ''bc'') \<and> key ''ab'' ''c'' \<noteq> key ''a'' ''bc''"
  using key_injective [of "''a''" "'':b''" "''a:''" "''b''"]
    key_injective [of "''ab''" "''c''" "''a''" "''bc''"]
  by simp

subsection \<open>Lookups and the invariants of the cache\<close>

lemma getEntry_Some:
  "getEntry c cname spn = (e, True) \<longleftrightarrow> map_of (Entries c) (key cname spn) = Some e"
  by (auto simp add: getEntry_def index_ok_def split: option.splits)

lemma getEntry_None:
  "\<not> snd (getEntry c cname spn) \<longleftrightarrow> map_of (Entries c) (key cname spn) = None"
  by (auto simp add: getEntry_def index_ok_def split: option.splits)

lemma getEntry_missing:
  "getEntry c cname spn = (e, False) \<Longrightarrow> e = zero_CacheEntry"
  by (auto simp add: getEntry_def index_ok_def split: option.splits)

lemma key_eq_iff: "key a b = key c d \<longleftrightarrow> a = c \<and> b = d"
  using key_inj [of a b c d] by auto

lemma keys_derived_entry:
  assumes "keys_derived pns c" "getEntry c cname spn = (e, True)"
  shows "pns (CName e) = cname \<and> pns (SName (Ticket e)) = spn"
proof -
  from assms(2) have "(key cname spn, e) \<in> set (Entries c)"
    by (simp add: getEntry_Some map_of_SomeD)
  with assms(1) have "key cname spn = entry_key pns e"
    by (auto simp add: keys_derived_def list_all_iff)
  then have "key (pns (CName e)) (pns (SName (Ticket e))) = key cname spn"
    by (simp add: entry_key_def)
  then show ?thesis by (rule key_inj)
qed

lemma is_map_NewCache: "is_map NewCache"
  by (simp add: is_map_def NewCache_def)

lemma keys_derived_NewCache: "keys_derived pns NewCache"
  by (simp add: keys_derived_def NewCache_def)

lemma is_map_addEntry:
  "is_map c \<Longrightarrow> is_map (snd (addEntry pns c cname tkt authTime startTime endTime renewTill sessionKey))"
  by (simp add: is_map_def addEntry_def Let_def distinct_update)

lemma list_all_update:
  assumes "list_all P xs" "P (k, v)"
  shows "list_all P (AList.update k v xs)"
  using assms by (induction xs) (auto simp add: AList.update.simps)

lemma list_all_delete:
  assumes "list_all P xs"
  shows "list_all P (AList.delete k xs)"
  using assms by (induction xs) (auto simp add: AList.delete_eq)

lemma keys_derived_addEntry:
  "keys_derived pns c \<Longrightarrow>
    keys_derived pns (snd (addEntry pns c cname tkt authTime startTime endTime renewTill sessionKey))"
  by (simp add: keys_derived_def addEntry_def Let_def list_all_update entry_key_def)

lemma addEntry_getEntry:
  "getEntry (snd (addEntry pns c cname tkt authTime startTime endTime renewTill sessionKey))
      (pns cname) (pns (SName tkt))
    = (fst (addEntry pns c cname tkt authTime startTime endTime renewTill sessionKey), True)"
  by (simp add: addEntry_def Let_def getEntry_def index_ok_def index_def update_conv')

lemma fold_delete_all: "set (map fst xs) \<subseteq> set ks \<Longrightarrow> fold AList.delete ks xs = []"
proof (induction ks arbitrary: xs)
  case Nil
  then show ?case by simp
next
  case (Cons k ks)
  have "set (map fst (AList.delete k xs)) \<subseteq> set ks"
    using Cons.prems by (auto simp add: AList.delete_eq)
  then show ?case by (simp add: Cons.IH)
qed

lemma clear_empty: "Entries (clear c) = []"
  by (simp add: clear_def fold_delete_all)

lemma is_map_clear: "is_map (clear c)"
  by (simp add: is_map_def clear_empty)

lemma keys_derived_clear: "keys_derived pns (clear c)"
  by (simp add: keys_derived_def clear_empty)

lemma is_map_RemoveEntry: "is_map c \<Longrightarrow> is_map (RemoveEntry c cname spn)"
  by (simp add: is_map_def RemoveEntry_def distinct_delete)

lemma keys_derived_RemoveEntry: "keys_derived pns c \<Longrightarrow> keys_derived pns (RemoveEntry c cname spn)"
  by (simp add: keys_derived_def RemoveEntry_def list_all_delete)

lemma RemoveEntry_getEntry: "\<not> snd (getEntry (RemoveEntry c cname spn) cname spn)"
  by (simp add: getEntry_None RemoveEntry_def delete_conv')

subsection \<open>The scenario, evaluated\<close>

lemma join_name_alice: "join_name alice = ''alice''"
  by (simp add: join_name_def alice_def)

lemma join_name_http_server: "join_name http_server = ''HTTP/server''"
  by (simp add: join_name_def http_server_def)

lemma old_cache_getEntry:
  "getEntry (cache (client_at old_cache now)) ''alice'' ''HTTP/server'' = (old_entry, True)"
  by (simp add: client_at_def old_cache_def getEntry_def index_ok_def)

lemma new_cache_getEntry: "getEntry new_cache ''alice'' ''HTTP/server'' = (new_entry, True)"
  by (simp add: new_cache_def getEntry_def index_ok_def)

lemma old_cache_keys_derived: "keys_derived join_name (cache (client_at old_cache now))"
  by (simp add: client_at_def old_cache_def keys_derived_def entry_key_def old_entry_def
      old_ticket_def join_name_alice join_name_http_server)

lemma client_at_clock: "\<forall>n. clock (client_at c now) n = now"
  by (simp add: client_at_def)

lemma old_entry_call:
  "(SName (Ticket old_entry), Realm (Ticket old_entry), Ticket old_entry, SessionKey old_entry, True)
    = (http_server, ''EXAMPLE.COM'', old_ticket, old_key, True)"
  by (simp add: old_entry_def old_ticket_def)

lemma renew_ok_old_cache:
  "renew_ok args (cache (client_at old_cache now)) = (None, new_cache)"
  by (simp add: renew_ok_def addEntry_def Let_def client_at_def old_cache_def
      new_cache_def new_entry_def new_ticket_def join_name_alice join_name_http_server)

lemma renew_fails_old_cache:
  "renew_fails args (cache (client_at old_cache now))
    = (Some (OtherError ''KDC unreachable''), old_cache)"
  by (simp add: renew_fails_def client_at_def)

lemma renew_unreliable_old_cache:
  "renew_unreliable args (cache (client_at old_cache now)) = (None, NewCache)"
  by (simp add: renew_unreliable_def client_at_def old_cache_def RemoveEntry_def NewCache_def)

lemma renew_unreliable_NewCache:
  "renew_unreliable args (cache (client_at NewCache now))
    = (Some (OtherError ''no ticket to renew''), NewCache)"
  by (simp add: renew_unreliable_def client_at_def NewCache_def)

lemma renew_same_text_old_cache:
  "renew_same_text args (cache (client_at old_cache now)) = (None, NewCache)"
  by (simp add: renew_same_text_def client_at_def old_cache_def RemoveEntry_def NewCache_def)

lemma renew_same_text_NewCache:
  "renew_same_text args (cache (client_at NewCache now))
    = (Some (errorString ''ticket was not added to cache''), NewCache)"
  by (simp add: renew_same_text_def client_at_def NewCache_def)

lemma NewCache_getEntry: "getEntry NewCache cname spn = (zero_CacheEntry, False)"
  by (simp add: NewCache_def getEntry_def index_ok_def)

lemma http_then_ldap_Entries:
  "Entries http_then_ldap =
    [(key ''alice'' ''HTTP/server'', old_entry), (key ''alice'' ''ldap/dc'', ldap_entry)]"
  by (simp add: http_then_ldap_def addEntry_def Let_def NewCache_def key_eq_iff old_entry_def
      ldap_entry_def old_ticket_def ldap_ticket_def join_name_def alice_def http_server_def)

lemma ldap_then_http_Entries:
  "Entries ldap_then_http =
    [(key ''alice'' ''ldap/dc'', ldap_entry), (key ''alice'' ''HTTP/server'', old_entry)]"
  by (simp add: ldap_then_http_def addEntry_def Let_def NewCache_def key_eq_iff old_entry_def
      ldap_entry_def old_ticket_def ldap_ticket_def join_name_def alice_def http_server_def)

subsection \<open>renewTicket\<close>

lemma renewTicket_fst_cache:
  assumes "cache cl = cache cl'"
  shows "fst (renewTicket X pns e cl) = fst (renewTicket X pns e cl')"
  using assms
  by (simp add: renewTicket_def TGSREQGenerateAndExchange_def Let_def
      split: prod.splits option.splits)

lemma renewTicket_exchanges:
  "exchanges (snd (renewTicket X pns e cl))
    = exchanges cl @ [(SName (Ticket e), Realm (Ticket e), Ticket e, SessionKey e, True)]"
  by (simp add: renewTicket_def TGSREQGenerateAndExchange_def Let_def Log_def
      split: prod.splits option.splits)

lemma renewTicket_failure:
  assumes "X (SName (Ticket e), Realm (Ticket e), Ticket e, SessionKey e, True) (cache cl)
      = (Some x, c')"
  shows "fst (renewTicket X pns e cl) = (e, Some x)"
  using assms by (simp add: renewTicket_def TGSREQGenerateAndExchange_def)

lemma renewTicket_success:
  assumes "X (SName (Ticket e), Realm (Ticket e), Ticket e, SessionKey e, True) (cache cl)
      = (None, c')"
  shows "fst (renewTicket X pns e cl) =
    (fst (getEntry c' (pns (CName e)) (pns (SName (Ticket e)))),
     if snd (getEntry c' (pns (CName e)) (pns (SName (Ticket e)))) then None
     else Some (errorString ''ticket was not added to cache''))"
  using assms by (simp add: renewTicket_def TGSREQGenerateAndExchange_def Let_def split: prod.splits)

text \<open>
  C4, as stated, fails. The error of line 140 is an \<^verbatim>\<open>errors.New\<close> value made in
  place: it has no name (no package variable, no type of its own) by which a caller
  could tell it from another error. An exchange that fails with an error string of the
  same text makes \<^verbatim>\<open>renewTicket\<close> return an error equal, in type and text, to the
  one it returns when the renewed entry is missing.
\<close>

theorem renewTicket_error_not_distinct:
  "renew_same_text (SName (Ticket old_entry), Realm (Ticket old_entry), Ticket old_entry,
       SessionKey old_entry, True) (cache (client_at old_cache 25)) = (None, NewCache)
   \<and> getEntry NewCache (join_name (CName old_entry)) (join_name (SName (Ticket old_entry)))
       = (zero_CacheEntry, False)
   \<and> renew_same_text (SName (Ticket old_entry), Realm (Ticket old_entry), Ticket old_entry,
       SessionKey old_entry, True) (cache (client_at NewCache 25))
       = (Some (errorString ''ticket was not added to cache''), NewCache)
   \<and> snd (fst (renewTicket renew_same_text join_name old_entry (client_at old_cache 25)))
       = Some (errorString ''ticket was not added to cache'')
   \<and> snd (fst (renewTicket renew_same_text join_name old_entry (client_at NewCache 25)))
       = snd (fst (renewTicket renew_same_text join_name old_entry (client_at old_cache 25)))"
  by (simp add: renewTicket_def TGSREQGenerateAndExchange_def Let_def renew_same_text_def
      client_at_def old_cache_def NewCache_def RemoveEntry_def getEntry_def index_ok_def)

text \<open>
  C4, amended: when the exchange reports success and the lookup that follows finds no
  entry, \<^verbatim>\<open>renewTicket\<close> returns the zero entry and an error string with the fixed
  text \<^verbatim>\<open>ticket was not added to cache\<close>. When the exchange itself fails,
  \<^verbatim>\<open>renewTicket\<close> returns the entry it was given and the error of the exchange as it
  is; that error equals the first one exactly when it is an error string of the same
  text.
\<close>

theorem renewTicket_entry_missing:
  assumes "X (SName (Ticket e), Realm (Ticket e), Ticket e, SessionKey e, True) (cache cl)
      = (None, c')"
    and "getEntry c' (pns (CName e)) (pns (SName (Ticket e))) = (e', False)"
  shows "fst (renewTicket X pns e cl)
      = (zero_CacheEntry, Some (errorString ''ticket was not added to cache''))
    \<and> (\<forall>e2 cl2 err c2.
          X (SName (Ticket e2), Realm (Ticket e2), Ticket e2, SessionKey e2, True) (cache cl2)
            = (Some err, c2)
          \<longrightarrow> fst (renewTicket X pns e2 cl2) = (e2, Some err)
            \<and> (snd (fst (renewTicket X pns e2 cl2)) = snd (fst (renewTicket X pns e cl))
                 \<longleftrightarrow> err = errorString ''ticket was not added to cache''))"
proof -
  from assms(2) have "e' = zero_CacheEntry" by (rule getEntry_missing)
  with assms have r: "fst (renewTicket X pns e cl)
      = (zero_CacheEntry, Some (errorString ''ticket was not added to cache''))"
    by (simp add: renewTicket_success [of X e cl c'])
  show ?thesis
    by (auto simp add: r renewTicket_failure)
qed

theorem renewTicket_entry_missing_witness:
  "renew_unreliable (SName (Ticket old_entry), Realm (Ticket old_entry), Ticket old_entry,
       SessionKey old_entry, True) (cache (client_at old_cache 25)) = (None, NewCache)
   \<and> getEntry NewCache (join_name (CName old_entry)) (join_name (SName (Ticket old_entry)))
       = (zero_CacheEntry, False)
   \<and> fst (renewTicket renew_unreliable join_name old_entry (client_at old_cache 25))
       = (zero_CacheEntry, Some (errorString ''ticket was not added to cache''))
   \<and> renew_unreliable (SName (Ticket old_entry), Realm (Ticket old_entry), Ticket old_entry,
       SessionKey old_entry, True) (cache (client_at NewCache 25))
       = (Some (OtherError ''no ticket to renew''), NewCache)
   \<and> fst (renewTicket renew_unreliable join_name old_entry (client_at NewCache 25))
       = (old_entry, Some (OtherError ''no ticket to renew''))
   \<and> snd (fst (renewTicket renew_unreliable join_name old_entry (client_at NewCache 25)))
       \<noteq> snd (fst (renewTicket renew_unreliable join_name old_entry (client_at old_cache 25)))"
proof -
  note r = renewTicket_entry_missing [where X = renew_unreliable and pns = join_name,
      OF renew_unreliable_old_cache NewCache_getEntry]
  from r have a: "fst (renewTicket renew_unreliable join_name old_entry (client_at old_cache 25))
       = (zero_CacheEntry, Some (errorString ''ticket was not added to cache''))"
    by (rule conjunct1)
  from r renew_unreliable_NewCache [of _ 25]
  have b: "fst (renewTicket renew_unreliable join_name old_entry (client_at NewCache 25))
       = (old_entry, Some (OtherError ''no ticket to renew''))
    \<and> (snd (fst (renewTicket renew_unreliable join_name old_entry (client_at NewCache 25)))
          = snd (fst (renewTicket renew_unreliable join_name old_entry (client_at old_cache 25)))
        \<longleftrightarrow> (OtherError ''no ticket to renew'' :: string error)
            = errorString ''ticket was not added to cache'')"
    by blast
  then have "snd (fst (renewTicket renew_unreliable join_name old_entry (client_at NewCache 25)))
          = snd (fst (renewTicket renew_unreliable join_name old_entry (client_at old_cache 25)))
        \<longleftrightarrow> (OtherError ''no ticket to renew'' :: string error)
            = errorString ''ticket was not added to cache''"
    by (rule conjunct2)
  then have c: "snd (fst (renewTicket renew_unreliable join_name old_entry (client_at NewCache 25)))
       \<noteq> snd (fst (renewTicket renew_unreliable join_name old_entry (client_at old_cache 25)))"
    by (simp only: error.distinct simp_thms)
  from a b c show ?thesis
    by (simp only: renew_unreliable_old_cache NewCache_getEntry renew_unreliable_NewCache simp_thms)
qed

subsection \<open>GetCachedTicket when every reading of the clock is the same instant\<close>

text \<open>
  The properties below speak of one instant \<open>now\<close>; the code reads the clock up to
  three times. The hypothesis \<open>\<forall>n. clock cl n = now\<close> says that every reading during
  the call gives that instant.
\<close>

lemma time_Now_frozen:
  assumes "\<forall>n. clock cl n = now"
  shows "time_Now cl = (now, cl\<lparr>ticks := Suc (ticks cl)\<rparr>)"
  using assms by (simp add: time_Now_def)

lemma within_window_frozen:
  assumes "\<forall>n. clock cl n = now"
  shows "fst (within_window e cl) \<longleftrightarrow> StartTime e < now \<and> now < EndTime e"
    and "cache (snd (within_window e cl)) = cache cl"
    and "exchanges (snd (within_window e cl)) = exchanges cl"
    and "clock (snd (within_window e cl)) = clock cl"
  using assms by (simp_all add: within_window_def time_Now_def After_def Before_def Let_def)

lemma GetCachedTicket_frozen:
  assumes "\<forall>n. clock cl n = now"
  shows "fst (GetCachedTicket X pns cname spn cl) =
      (let (e, ok) = getEntry (cache cl) cname spn
       in if ok \<and> StartTime e < now \<and> now < EndTime e then (Ticket e, SessionKey e, True)
          else if ok \<and> now < RenewTill e
          then (let (e', err) = fst (renewTicket X pns e cl) in (Ticket e', SessionKey e', err = None))
          else (zero_Ticket, zero_EncryptionKey, False))"
    and "exchanges (snd (GetCachedTicket X pns cname spn cl)) =
      (let (e, ok) = getEntry (cache cl) cname spn
       in if ok \<and> \<not> (StartTime e < now \<and> now < EndTime e) \<and> now < RenewTill e
          then exchanges cl @ [(SName (Ticket e), Realm (Ticket e), Ticket e, SessionKey e, True)] else exchanges cl)"
proof -
  obtain e ok where g: "getEntry (cache cl) cname spn = (e, ok)" by (cases "getEntry (cache cl) cname spn")
  obtain v cl1 where w: "within_window e cl = (v, cl1)" by (cases "within_window e cl")
  from within_window_frozen [OF assms, of e] w
  have v: "v \<longleftrightarrow> StartTime e < now \<and> now < EndTime e"
    and c1: "cache cl1 = cache cl" "exchanges cl1 = exchanges cl" "clock cl1 = clock cl"
    by simp_all
  let ?cl2 = "cl1\<lparr>ticks := Suc (ticks cl1)\<rparr>"
  have t: "time_Now cl1 = (now, ?cl2)"
    using assms c1 by (simp add: time_Now_def)
  have r: "fst (renewTicket X pns e ?cl2) = fst (renewTicket X pns e cl)"
    by (rule renewTicket_fst_cache) (simp add: c1)
  have x: "exchanges (snd (renewTicket X pns e ?cl2)) = exchanges cl @ [(SName (Ticket e), Realm (Ticket e), Ticket e, SessionKey e, True)]"
    by (simp add: renewTicket_exchanges c1)
  show "fst (GetCachedTicket X pns cname spn cl) =
      (let (e, ok) = getEntry (cache cl) cname spn
       in if ok \<and> StartTime e < now \<and> now < EndTime e then (Ticket e, SessionKey e, True)
          else if ok \<and> now < RenewTill e
          then (let (e', err) = fst (renewTicket X pns e cl) in (Ticket e', SessionKey e', err = None))
          else (zero_Ticket, zero_EncryptionKey, False))"
    using r by (auto simp add: GetCachedTicket_def g w v t Before_def Let_def split: prod.splits)
  show "exchanges (snd (GetCachedTicket X pns cname spn cl)) =
      (let (e, ok) = getEntry (cache cl) cname spn
       in if ok \<and> \<not> (StartTime e < now \<and> now < EndTime e) \<and> now < RenewTill e
          then exchanges cl @ [(SName (Ticket e), Realm (Ticket e), Ticket e, SessionKey e, True)] else exchanges cl)"
    using x by (auto simp add: GetCachedTicket_def g w v t c1 Before_def Let_def Log_def split: prod.splits)
qed

text \<open>
  C1: for a cached entry of an identity pair with \<open>EndTime < now < RenewTill\<close>,
  \<^verbatim>\<open>GetCachedTicket\<close> makes exactly one exchange call, and it is a renewal of the
  cached ticket: the call carries the ticket's service name and realm, the cached
  ticket and session key, and \<open>renewal = True\<close>. If that exchange succeeds and has
  left an entry for the same pair in the cache, \<^verbatim>\<open>GetCachedTicket\<close> returns that
  entry's ticket and session key with \<open>usable = True\<close>.
  The cache is one whose keys are derived from the entries, as \<^verbatim>\<open>addEntry\<close> stores
  them: \<^verbatim>\<open>renewTicket\<close> reads the refreshed entry under the key of the old entry's
  own names.
\<close>

theorem GetCachedTicket_renews_expired:
  assumes "keys_derived pns (cache cl)"
    and "getEntry (cache cl) cname spn = (e, True)"
    and "\<forall>n. clock cl n = now"
    and "EndTime e < now" and "now < RenewTill e"
  shows "exchanges (snd (GetCachedTicket X pns cname spn cl))
      = exchanges cl @ [(SName (Ticket e), Realm (Ticket e), Ticket e, SessionKey e, True)]
    \<and> (\<forall>c' e'.
          X (SName (Ticket e), Realm (Ticket e), Ticket e, SessionKey e, True) (cache cl) = (None, c')
          \<and> getEntry c' cname spn = (e', True)
          \<longrightarrow> fst (GetCachedTicket X pns cname spn cl) = (Ticket e', SessionKey e', True))"
proof (intro conjI allI impI)
  show "exchanges (snd (GetCachedTicket X pns cname spn cl))
      = exchanges cl @ [(SName (Ticket e), Realm (Ticket e), Ticket e, SessionKey e, True)]"
    using assms(2,4,5) by (simp add: GetCachedTicket_frozen(2) [OF assms(3)])
next
  fix c' e'
  assume ok: "X (SName (Ticket e), Realm (Ticket e), Ticket e, SessionKey e, True) (cache cl)
      = (None, c') \<and> getEntry c' cname spn = (e', True)"
  from keys_derived_entry [OF assms(1,2)]
  have same: "pns (CName e) = cname" "pns (SName (Ticket e)) = spn" by simp_all
  from ok have "fst (renewTicket X pns e cl) = (e', None)"
    by (simp add: renewTicket_success [of X e cl c'] same)
  then show "fst (GetCachedTicket X pns cname spn cl) = (Ticket e', SessionKey e', True)"
    using assms(2,4,5) by (simp add: GetCachedTicket_frozen(1) [OF assms(3)])
qed

theorem GetCachedTicket_renews_expired_witness:
  "keys_derived join_name (cache (client_at old_cache 25))
   \<and> getEntry (cache (client_at old_cache 25)) ''alice'' ''HTTP/server'' = (old_entry, True)
   \<and> (\<forall>n. clock (client_at old_cache 25) n = 25)
   \<and> EndTime old_entry < 25 \<and> 25 < RenewTill old_entry
   \<and> renew_ok (http_server, ''EXAMPLE.COM'', old_ticket, old_key, True)
       (cache (client_at old_cache 25)) = (None, new_cache)
   \<and> getEntry new_cache ''alice'' ''HTTP/server'' = (new_entry, True)
   \<and> exchanges (snd (GetCachedTicket renew_ok join_name ''alice'' ''HTTP/server'' (client_at old_cache 25)))
       = [(http_server, ''EXAMPLE.COM'', old_ticket, old_key, True)]
   \<and> fst (GetCachedTicket renew_ok join_name ''alice'' ''HTTP/server'' (client_at old_cache 25))
       = (new_ticket, new_key, True)"
proof -
  have t1: "EndTime old_entry < 25" and t2: "25 < RenewTill old_entry"
    by (simp_all add: old_entry_def)
  note r = GetCachedTicket_renews_expired [OF old_cache_keys_derived old_cache_getEntry
      client_at_clock t1 t2, of renew_ok]
  from r have a: "exchanges (snd (GetCachedTicket renew_ok join_name ''alice'' ''HTTP/server'' (client_at old_cache 25)))
       = [(http_server, ''EXAMPLE.COM'', old_ticket, old_key, True)]"
    by (simp add: client_at_def old_entry_call)
  from r renew_ok_old_cache new_cache_getEntry
  have "fst (GetCachedTicket renew_ok join_name ''alice'' ''HTTP/server'' (client_at old_cache 25))
       = (Ticket new_entry, SessionKey new_entry, True)"
    by blast
  then have b: "fst (GetCachedTicket renew_ok join_name ''alice'' ''HTTP/server'' (client_at old_cache 25))
       = (new_ticket, new_key, True)"
    by (simp add: new_entry_def)
  from a b t1 t2 show ?thesis
    by (simp only: old_cache_keys_derived old_cache_getEntry client_at_clock renew_ok_old_cache
        new_cache_getEntry simp_thms)
qed

text \<open>
  C2: for a cached entry and \<open>now\<close> strictly after its \<open>StartTime\<close> and strictly
  before its \<open>EndTime\<close>, \<^verbatim>\<open>GetCachedTicket\<close> returns the entry's ticket and
  session key with \<open>usable = True\<close> and calls no exchange.
\<close>

theorem GetCachedTicket_within_window:
  assumes "getEntry (cache cl) cname spn = (e, True)"
    and "\<forall>n. clock cl n = now"
    and "StartTime e < now" and "now < EndTime e"
  shows "fst (GetCachedTicket X pns cname spn cl) = (Ticket e, SessionKey e, True)
    \<and> exchanges (snd (GetCachedTicket X pns cname spn cl)) = exchanges cl"
  using assms(1,3,4) by (simp add: GetCachedTicket_frozen [OF assms(2)])

theorem GetCachedTicket_within_window_witness:
  "getEntry (cache (client_at old_cache 15)) ''alice'' ''HTTP/server'' = (old_entry, True)
   \<and> (\<forall>n. clock (client_at old_cache 15) n = 15)
   \<and> StartTime old_entry < 15 \<and> 15 < EndTime old_entry
   \<and> fst (GetCachedTicket renew_fails join_name ''alice'' ''HTTP/server'' (client_at old_cache 15))
       = (old_ticket, old_key, True)
   \<and> exchanges (snd (GetCachedTicket renew_fails join_name ''alice'' ''HTTP/server'' (client_at old_cache 15)))
       = []"
proof -
  have t1: "StartTime old_entry < 15" and t2: "15 < EndTime old_entry"
    by (simp_all add: old_entry_def)
  from GetCachedTicket_within_window [OF old_cache_getEntry client_at_clock t1 t2, of renew_fails join_name]
  have "fst (GetCachedTicket renew_fails join_name ''alice'' ''HTTP/server'' (client_at old_cache 15))
       = (old_ticket, old_key, True)"
    and "exchanges (snd (GetCachedTicket renew_fails join_name ''alice'' ''HTTP/server'' (client_at old_cache 15)))
       = []"
    by (simp_all add: old_entry_def client_at_def)
  with t1 t2 show ?thesis
    by (simp only: old_cache_getEntry client_at_clock simp_thms)
qed

text \<open>
  C3: for a cached entry with \<open>now\<close> outside \<open>(StartTime, EndTime)\<close> and strictly
  before \<open>RenewTill\<close>, if the renewal exchange returns an error then
  \<^verbatim>\<open>GetCachedTicket\<close> returns the stale entry's ticket and session key, not the
  zero values, with \<open>usable = False\<close>.
\<close>

theorem GetCachedTicket_exchange_failure:
  assumes "getEntry (cache cl) cname spn = (e, True)"
    and "\<forall>n. clock cl n = now"
    and "\<not> (StartTime e < now \<and> now < EndTime e)" and "now < RenewTill e"
    and "X (SName (Ticket e), Realm (Ticket e), Ticket e, SessionKey e, True) (cache cl)
      = (Some x, c')"
  shows "fst (GetCachedTicket X pns cname spn cl) = (Ticket e, SessionKey e, False)"
  using assms(1,3,4) renewTicket_failure [where X = X and e = e and cl = cl, OF assms(5), of pns]
  by (auto simp add: GetCachedTicket_frozen(1) [OF assms(2)])

theorem GetCachedTicket_exchange_failure_witness:
  "getEntry (cache (client_at old_cache 25)) ''alice'' ''HTTP/server'' = (old_entry, True)
   \<and> (\<forall>n. clock (client_at old_cache 25) n = 25)
   \<and> \<not> (StartTime old_entry < 25 \<and> 25 < EndTime old_entry) \<and> 25 < RenewTill old_entry
   \<and> renew_fails (http_server, ''EXAMPLE.COM'', old_ticket, old_key, True)
       (cache (client_at old_cache 25)) = (Some (OtherError ''KDC unreachable''), old_cache)
   \<and> fst (GetCachedTicket renew_fails join_name ''alice'' ''HTTP/server'' (client_at old_cache 25))
       = (old_ticket, old_key, False)
   \<and> old_ticket \<noteq> zero_Ticket \<and> old_key \<noteq> zero_EncryptionKey"
proof -
  have t1: "\<not> (StartTime old_entry < 25 \<and> 25 < EndTime old_entry)" and t2: "25 < RenewTill old_entry"
    by (simp_all add: old_entry_def)
  from GetCachedTicket_exchange_failure [where X = renew_fails and pns = join_name,
      OF old_cache_getEntry client_at_clock t1 t2 renew_fails_old_cache]
  have "fst (GetCachedTicket renew_fails join_name ''alice'' ''HTTP/server'' (client_at old_cache 25))
       = (old_ticket, old_key, False)"
    by (simp add: old_entry_def)
  moreover have "old_ticket \<noteq> zero_Ticket" "old_key \<noteq> zero_EncryptionKey"
    by (simp_all add: old_ticket_def zero_Ticket_def old_key_def zero_EncryptionKey_def)
  ultimately show ?thesis using t1 t2
    by (simp only: old_cache_getEntry client_at_clock renew_fails_old_cache simp_thms)
qed

text \<open>
  C5: when the identity pair is not in the cache, or its entry satisfies
  \<open>StartTime \<le> EndTime \<le> RenewTill\<close> and \<open>now \<ge> RenewTill\<close>,
  \<^verbatim>\<open>GetCachedTicket\<close> returns the zero ticket and the zero session key with
  \<open>usable = False\<close> and calls no exchange.
\<close>

theorem GetCachedTicket_not_usable:
  assumes "\<forall>n. clock cl n = now"
    and "snd (getEntry (cache cl) cname spn) = False
      \<or> (getEntry (cache cl) cname spn = (e, True)
          \<and> StartTime e \<le> EndTime e \<and> EndTime e \<le> RenewTill e \<and> RenewTill e \<le> now)"
  shows "fst (GetCachedTicket X pns cname spn cl) = (zero_Ticket, zero_EncryptionKey, False)
    \<and> exchanges (snd (GetCachedTicket X pns cname spn cl)) = exchanges cl"
  using assms(2) by (auto simp add: GetCachedTicket_frozen [OF assms(1)] split: prod.splits)

theorem GetCachedTicket_not_usable_witness:
  "(\<forall>n. clock (client_at NewCache 15) n = 15)
   \<and> snd (getEntry (cache (client_at NewCache 15)) ''alice'' ''HTTP/server'') = False
   \<and> fst (GetCachedTicket renew_ok join_name ''alice'' ''HTTP/server'' (client_at NewCache 15))
       = (zero_Ticket, zero_EncryptionKey, False)
   \<and> exchanges (snd (GetCachedTicket renew_ok join_name ''alice'' ''HTTP/server'' (client_at NewCache 15)))
       = []
   \<and> (\<forall>n. clock (client_at old_cache 30) n = 30)
   \<and> getEntry (cache (client_at old_cache 30)) ''alice'' ''HTTP/server'' = (old_entry, True)
   \<and> StartTime old_entry \<le> EndTime old_entry \<and> EndTime old_entry \<le> RenewTill old_entry
   \<and> RenewTill old_entry \<le> 30
   \<and> fst (GetCachedTicket renew_ok join_name ''alice'' ''HTTP/server'' (client_at old_cache 30))
       = (zero_Ticket, zero_EncryptionKey, False)
   \<and> exchanges (snd (GetCachedTicket renew_ok join_name ''alice'' ''HTTP/server'' (client_at old_cache 30)))
       = []"
proof -
  have absent: "snd (getEntry (cache (client_at NewCache 15)) ''alice'' ''HTTP/server'') = False"
    by (simp add: client_at_def NewCache_getEntry)
  have t: "StartTime old_entry \<le> EndTime old_entry" "EndTime old_entry \<le> RenewTill old_entry"
    "RenewTill old_entry \<le> 30"
    by (simp_all add: old_entry_def)
  have e: "exchanges (client_at c now) = []" for c now
    by (simp add: client_at_def)
  from GetCachedTicket_not_usable [where X = renew_ok and pns = join_name and e = old_entry,
      OF client_at_clock disjI1, OF absent]
  have a: "fst (GetCachedTicket renew_ok join_name ''alice'' ''HTTP/server'' (client_at NewCache 15))
       = (zero_Ticket, zero_EncryptionKey, False)"
    "exchanges (snd (GetCachedTicket renew_ok join_name ''alice'' ''HTTP/server'' (client_at NewCache 15)))
       = []"
    by (simp_all only: e)
  from GetCachedTicket_not_usable [where X = renew_ok and pns = join_name,
      OF client_at_clock disjI2, of old_cache 30 "''alice''" "''HTTP/server''" old_entry]
    old_cache_getEntry t
  have b: "fst (GetCachedTicket renew_ok join_name ''alice'' ''HTTP/server'' (client_at old_cache 30))
       = (zero_Ticket, zero_EncryptionKey, False)"
    "exchanges (snd (GetCachedTicket renew_ok join_name ''alice'' ''HTTP/server'' (client_at old_cache 30)))
       = []"
    by (simp_all only: e simp_thms)
  from a b t absent show ?thesis
    by (simp only: old_cache_getEntry client_at_clock simp_thms)
qed

text \<open>
  C9, as stated, fails: the window in which the cached ticket is returned without
  renewal is not half-open. At \<open>now = StartTime = 10\<close>, with \<open>EndTime = 20\<close> and
  \<open>RenewTill = 30\<close>, the comparison \<^verbatim>\<open>After(e.StartTime)\<close> is false, the renewal
  branch runs, the exchange is called once, and when it fails the call returns
  \<open>usable = False\<close>.
\<close>

theorem GetCachedTicket_at_StartTime:
  "getEntry (cache (client_at old_cache 10)) ''alice'' ''HTTP/server'' = (old_entry, True)
   \<and> clock (client_at old_cache 10) 0 = 10 \<and> clock (client_at old_cache 10) 1 = 10
   \<and> StartTime old_entry = 10 \<and> StartTime old_entry < EndTime old_entry
   \<and> fst (GetCachedTicket renew_fails join_name ''alice'' ''HTTP/server'' (client_at old_cache 10))
       = (old_ticket, old_key, False)
   \<and> exchanges (snd (GetCachedTicket renew_fails join_name ''alice'' ''HTTP/server'' (client_at old_cache 10)))
       = [(http_server, ''EXAMPLE.COM'', old_ticket, old_key, True)]
   \<and> fst (GetCachedTicket renew_fails join_name ''alice'' ''HTTP/server'' (client_at old_cache 10))
       \<noteq> (Ticket old_entry, SessionKey old_entry, True)
   \<and> exchanges (snd (GetCachedTicket renew_fails join_name ''alice'' ''HTTP/server'' (client_at old_cache 10)))
       \<noteq> exchanges (client_at old_cache 10)"
  by (simp add: GetCachedTicket_def renewTicket_def TGSREQGenerateAndExchange_def within_window_def
      time_Now_def After_def Before_def Let_def getEntry_def index_ok_def old_cache_def
      old_entry_def old_ticket_def renew_fails_def client_at_def)

text \<open>
  C9, amended: the window is open at both ends. For a cached entry,
  \<^verbatim>\<open>GetCachedTicket\<close> returns the cached ticket and session key with
  \<open>usable = True\<close> and without an exchange call exactly when
  \<open>StartTime < now < EndTime\<close>; at \<open>now = StartTime\<close> it does not.
\<close>

theorem GetCachedTicket_direct_iff:
  assumes "getEntry (cache cl) cname spn = (e, True)"
    and "\<forall>n. clock cl n = now"
  shows "(fst (GetCachedTicket X pns cname spn cl) = (Ticket e, SessionKey e, True)
      \<and> exchanges (snd (GetCachedTicket X pns cname spn cl)) = exchanges cl)
    \<longleftrightarrow> StartTime e < now \<and> now < EndTime e"
  using assms(1) by (auto simp add: GetCachedTicket_frozen [OF assms(2)] split: prod.splits)

theorem GetCachedTicket_direct_iff_witness:
  "getEntry (cache (client_at old_cache 15)) ''alice'' ''HTTP/server'' = (old_entry, True)
   \<and> (\<forall>n. clock (client_at old_cache 15) n = 15)
   \<and> StartTime old_entry < 15 \<and> 15 < EndTime old_entry
   \<and> fst (GetCachedTicket renew_ok join_name ''alice'' ''HTTP/server'' (client_at old_cache 15))
       = (Ticket old_entry, SessionKey old_entry, True)
   \<and> exchanges (snd (GetCachedTicket renew_ok join_name ''alice'' ''HTTP/server'' (client_at old_cache 15)))
       = exchanges (client_at old_cache 15)
   \<and> getEntry (cache (client_at old_cache 10)) ''alice'' ''HTTP/server'' = (old_entry, True)
   \<and> (\<forall>n. clock (client_at old_cache 10) n = 10)
   \<and> StartTime old_entry = 10
   \<and> \<not> (fst (GetCachedTicket renew_ok join_name ''alice'' ''HTTP/server'' (client_at old_cache 10))
           = (Ticket old_entry, SessionKey old_entry, True)
         \<and> exchanges (snd (GetCachedTicket renew_ok join_name ''alice'' ''HTTP/server'' (client_at old_cache 10)))
           = exchanges (client_at old_cache 10))"
proof -
  have t: "StartTime old_entry < 15" "15 < EndTime old_entry" "StartTime old_entry = 10"
    by (simp_all add: old_entry_def)
  from GetCachedTicket_direct_iff [where X = renew_ok and pns = join_name,
      OF old_cache_getEntry client_at_clock, of 15] t
  have a: "fst (GetCachedTicket renew_ok join_name ''alice'' ''HTTP/server'' (client_at old_cache 15))
       = (Ticket old_entry, SessionKey old_entry, True)
   \<and> exchanges (snd (GetCachedTicket renew_ok join_name ''alice'' ''HTTP/server'' (client_at old_cache 15)))
       = exchanges (client_at old_cache 15)"
    by blast
  from GetCachedTicket_direct_iff [where X = renew_ok and pns = join_name,
      OF old_cache_getEntry client_at_clock, of 10] t
  have b: "\<not> (fst (GetCachedTicket renew_ok join_name ''alice'' ''HTTP/server'' (client_at old_cache 10))
           = (Ticket old_entry, SessionKey old_entry, True)
         \<and> exchanges (snd (GetCachedTicket renew_ok join_name ''alice'' ''HTTP/server'' (client_at old_cache 10)))
           = exchanges (client_at old_cache 10))"
    by simp
  from a b t show ?thesis
    by (simp only: old_cache_getEntry client_at_clock simp_thms)
qed

text \<open>
  C10: for a cached entry whose window has not started (\<open>now \<le> StartTime\<close>) and
  \<open>now < RenewTill\<close>, \<^verbatim>\<open>GetCachedTicket\<close> neither returns the cached ticket
  directly nor answers as for a missing entry. It calls the exchange once, for a renewal
  of the cached ticket (the ticket's service name and realm, the cached ticket and
  session key, \<open>renewal = True\<close>), and its answer is the outcome of that renewal: the
  stale ticket with \<open>usable = False\<close> when the exchange fails, and otherwise what the
  cache then holds for the entry's names. The call and the answer are those that the
  same cache gives at a time in \<open>[EndTime, RenewTill)\<close>.
\<close>

theorem GetCachedTicket_not_yet_valid:
  assumes "getEntry (cache cl) cname spn = (e, True)"
    and "\<forall>n. clock cl n = now"
    and "now \<le> StartTime e" and "now < RenewTill e"
  shows "exchanges (snd (GetCachedTicket X pns cname spn cl))
      = exchanges cl @ [(SName (Ticket e), Realm (Ticket e), Ticket e, SessionKey e, True)]
    \<and> fst (GetCachedTicket X pns cname spn cl)
      = (case X (SName (Ticket e), Realm (Ticket e), Ticket e, SessionKey e, True) (cache cl) of
           (Some err, c') \<Rightarrow> (Ticket e, SessionKey e, False)
         | (None, c') \<Rightarrow>
             (let (e', ok) = getEntry c' (pns (CName e)) (pns (SName (Ticket e)))
              in (Ticket e', SessionKey e', ok)))
    \<and> (\<forall>(cl' :: Client) now'. cache cl' = cache cl \<and> (\<forall>n. clock cl' n = now')
            \<and> EndTime e \<le> now' \<and> now' < RenewTill e
          \<longrightarrow> fst (GetCachedTicket X pns cname spn cl') = fst (GetCachedTicket X pns cname spn cl)
            \<and> exchanges (snd (GetCachedTicket X pns cname spn cl'))
              = exchanges cl' @ [(SName (Ticket e), Realm (Ticket e), Ticket e, SessionKey e, True)])"
proof (intro conjI allI impI)
  show "exchanges (snd (GetCachedTicket X pns cname spn cl))
      = exchanges cl @ [(SName (Ticket e), Realm (Ticket e), Ticket e, SessionKey e, True)]"
    using assms(1,3,4) by (simp add: GetCachedTicket_frozen(2) [OF assms(2)])
  have r: "fst (GetCachedTicket X pns cname spn cl)
        = (let (e', err) = fst (renewTicket X pns e cl) in (Ticket e', SessionKey e', err = None))"
    using assms(1,3,4) by (simp add: GetCachedTicket_frozen(1) [OF assms(2)])
  obtain err c' where x: "X (SName (Ticket e), Realm (Ticket e), Ticket e, SessionKey e, True) (cache cl)
      = (err, c')"
    by (cases "X (SName (Ticket e), Realm (Ticket e), Ticket e, SessionKey e, True) (cache cl)")
  show "fst (GetCachedTicket X pns cname spn cl)
      = (case X (SName (Ticket e), Realm (Ticket e), Ticket e, SessionKey e, True) (cache cl) of
           (Some err, c') \<Rightarrow> (Ticket e, SessionKey e, False)
         | (None, c') \<Rightarrow>
             (let (e', ok) = getEntry c' (pns (CName e)) (pns (SName (Ticket e)))
              in (Ticket e', SessionKey e', ok)))"
  proof (cases err)
    case None
    with x show ?thesis
      by (simp add: r renewTicket_success [of X e cl c'] split: prod.splits)
  next
    case (Some a)
    with x show ?thesis
      by (simp add: r renewTicket_failure [of X e cl a c'])
  qed
  fix cl' :: Client and now'
  assume h: "cache cl' = cache cl \<and> (\<forall>n. clock cl' n = now') \<and> EndTime e \<le> now' \<and> now' < RenewTill e"
  then have f: "\<forall>n. clock cl' n = now'" and c: "cache cl' = cache cl" by simp_all
  have "fst (renewTicket X pns e cl') = fst (renewTicket X pns e cl)"
    using c by (rule renewTicket_fst_cache)
  with h assms(1) r
  show "fst (GetCachedTicket X pns cname spn cl') = fst (GetCachedTicket X pns cname spn cl)"
    by (simp add: GetCachedTicket_frozen(1) [OF f])
  from h assms(1)
  show "exchanges (snd (GetCachedTicket X pns cname spn cl'))
      = exchanges cl' @ [(SName (Ticket e), Realm (Ticket e), Ticket e, SessionKey e, True)]"
    by (simp add: GetCachedTicket_frozen(2) [OF f])
qed

theorem GetCachedTicket_not_yet_valid_witness:
  "getEntry (cache (client_at old_cache 5)) ''alice'' ''HTTP/server'' = (old_entry, True)
   \<and> (\<forall>n. clock (client_at old_cache 5) n = 5)
   \<and> 5 \<le> StartTime old_entry \<and> 5 < RenewTill old_entry
   \<and> exchanges (snd (GetCachedTicket renew_ok join_name ''alice'' ''HTTP/server'' (client_at old_cache 5)))
       = [(http_server, ''EXAMPLE.COM'', old_ticket, old_key, True)]
   \<and> fst (GetCachedTicket renew_ok join_name ''alice'' ''HTTP/server'' (client_at old_cache 5))
       = (new_ticket, new_key, True)
   \<and> fst (GetCachedTicket renew_fails join_name ''alice'' ''HTTP/server'' (client_at old_cache 5))
       = (old_ticket, old_key, False)
   \<and> cache (client_at old_cache 25) = cache (client_at old_cache 5)
   \<and> (\<forall>n. clock (client_at old_cache 25) n = 25)
   \<and> EndTime old_entry \<le> 25 \<and> 25 < RenewTill old_entry
   \<and> fst (GetCachedTicket renew_ok join_name ''alice'' ''HTTP/server'' (client_at old_cache 25))
       = fst (GetCachedTicket renew_ok join_name ''alice'' ''HTTP/server'' (client_at old_cache 5))"
proof -
  have t: "5 \<le> StartTime old_entry" "5 < RenewTill old_entry" "EndTime old_entry \<le> 25"
    "25 < RenewTill old_entry"
    by (simp_all add: old_entry_def)
  have c: "cache (client_at old_cache 25) = cache (client_at old_cache 5)"
    by (simp add: client_at_def)
  have n: "join_name (CName old_entry) = ''alice''" "join_name (SName (Ticket old_entry)) = ''HTTP/server''"
    by (simp_all add: old_entry_def old_ticket_def join_name_alice join_name_http_server)
  note r = GetCachedTicket_not_yet_valid [where X = renew_ok and pns = join_name,
      OF old_cache_getEntry client_at_clock t(1,2)]
  note q = GetCachedTicket_not_yet_valid [where X = renew_fails and pns = join_name,
      OF old_cache_getEntry client_at_clock t(1,2)]
  from r have a: "exchanges (snd (GetCachedTicket renew_ok join_name ''alice'' ''HTTP/server'' (client_at old_cache 5)))
       = [(http_server, ''EXAMPLE.COM'', old_ticket, old_key, True)]"
    by (simp add: client_at_def old_entry_call)
  from r have v: "fst (GetCachedTicket renew_ok join_name ''alice'' ''HTTP/server'' (client_at old_cache 5))
       = (new_ticket, new_key, True)"
    by (simp add: renew_ok_old_cache n new_cache_getEntry new_entry_def)
  from q have w: "fst (GetCachedTicket renew_fails join_name ''alice'' ''HTTP/server'' (client_at old_cache 5))
       = (old_ticket, old_key, False)"
    by (simp add: renew_fails_old_cache old_entry_def)
  from r c client_at_clock [of old_cache 25] t(3,4)
  have b: "fst (GetCachedTicket renew_ok join_name ''alice'' ''HTTP/server'' (client_at old_cache 25))
       = fst (GetCachedTicket renew_ok join_name ''alice'' ''HTTP/server'' (client_at old_cache 5))"
    by blast
  from a b c t v w show ?thesis
    by (simp only: old_cache_getEntry client_at_clock simp_thms)
qed

subsection \<open>The JSON export\<close>

lemma json_without_secrets: "json_CacheEntry (without_secrets e) = json_CacheEntry e"
  by (simp add: json_CacheEntry_def without_secrets_def)

lemma sort_distinct_set:
  fixes xs ys :: "'a::linorder list"
  assumes "distinct xs" "distinct ys" "set xs = set ys"
  shows "sort xs = sort ys"
proof -
  have "sort xs = sorted_list_of_set (set xs)" "sort ys = sorted_list_of_set (set ys)"
    using assms(1,2) by (simp_all add: sorted_list_of_set_sort_remdups distinct_remdups_id)
  with assms(3) show ?thesis by simp
qed

lemma index_member:
  assumes "is_map c" "(k, e) \<in> set (Entries c)"
  shows "index c k = e"
  using assms by (simp add: index_def is_map_def)

lemma index_in_cache:
  assumes "k \<in> fst ` set (Entries c)"
  shows "(k, index c k) \<in> set (Entries c)"
proof -
  from assms obtain e where "map_of (Entries c) k = Some e"
    by (metis map_of_eq_None_iff not_Some_eq)
  then show ?thesis by (simp add: index_def map_of_SomeD)
qed

lemma sorted_keys_set: "set (sort (map fst (Entries c))) = fst ` set (Entries c)"
  by simp

lemma sorted_entries_alt: "sorted_entries c = map (index c) (sort (map fst (Entries c)))"
  by (simp add: sorted_entries_def)

lemma JSON_alt:
  "JSON M c = (case M (json_entries (sorted_entries c)) [] ''  '' of
                 Inl err \<Rightarrow> ([], Some err) | Inr b \<Rightarrow> (b, None))"
  by (simp add: JSON_def)

lemma json_entries_cong:
  assumes "map json_CacheEntry es = map json_CacheEntry es'"
  shows "json_entries es = json_entries es'"
proof -
  from assms have "length es = length es'" by (rule map_eq_imp_length_eq)
  then have "es = [] \<longleftrightarrow> es' = []" by auto
  with assms show ?thesis by (simp add: json_entries_def)
qed

text \<open>
  C7: the export shows no secret. Two caches whose entries differ in nothing but
  \<open>Ticket\<close> and \<open>SessionKey\<close> have the same \<^verbatim>\<open>JSON()\<close> output, whatever
  the encoder prints for the tree it is given and in whatever order the maps are visited.
\<close>

theorem JSON_hides_secrets:
  assumes "is_map c1" and "is_map c2"
    and "(\<lambda>(k, e). (k, without_secrets e)) ` set (Entries c1)
       = (\<lambda>(k, e). (k, without_secrets e)) ` set (Entries c2)"
  shows "JSON M c1 = JSON M c2"
proof -
  let ?f = "\<lambda>(k, e). (k, without_secrets e)"
  have "fst ` ?f ` set (Entries c1) = fst ` ?f ` set (Entries c2)"
    by (simp only: assms(3))
  then have keys: "fst ` set (Entries c1) = fst ` set (Entries c2)"
    by (simp add: image_image case_prod_beta)
  with assms(1,2) have sorted: "sort (map fst (Entries c1)) = sort (map fst (Entries c2))"
    by (intro sort_distinct_set) (simp_all add: is_map_def)
  have "json_CacheEntry (index c1 k) = json_CacheEntry (index c2 k)"
    if "k \<in> fst ` set (Entries c1)" for k
  proof -
    from that have "(k, index c1 k) \<in> set (Entries c1)" by (rule index_in_cache)
    then have "?f (k, index c1 k) \<in> ?f ` set (Entries c2)"
      unfolding assms(3) [symmetric] by (rule imageI)
    then obtain e2 where e2: "(k, e2) \<in> set (Entries c2)"
      and "without_secrets e2 = without_secrets (index c1 k)"
      by auto
    then have "json_CacheEntry e2 = json_CacheEntry (index c1 k)"
      by (metis json_without_secrets)
    with index_member [OF assms(2) e2] show ?thesis by simp
  qed
  then have "map json_CacheEntry (sorted_entries c1) = map json_CacheEntry (sorted_entries c2)"
    by (simp add: sorted_entries_alt sorted [symmetric])
  then have "json_entries (sorted_entries c1) = json_entries (sorted_entries c2)"
    by (rule json_entries_cong)
  then show ?thesis by (simp only: JSON_alt)
qed

theorem JSON_hides_secrets_witness:
  "is_map old_cache \<and> is_map other_secrets_cache
   \<and> (\<lambda>(k, e). (k, without_secrets e)) ` set (Entries old_cache)
     = (\<lambda>(k, e). (k, without_secrets e)) ` set (Entries other_secrets_cache)
   \<and> Entries old_cache \<noteq> Entries other_secrets_cache
   \<and> (\<forall>M :: jvalue \<Rightarrow> string \<Rightarrow> string \<Rightarrow> string + string.
        JSON M old_cache = JSON M other_secrets_cache)"
proof -
  have m: "is_map old_cache" "is_map other_secrets_cache"
    by (simp_all add: is_map_def old_cache_def other_secrets_cache_def)
  have i: "(\<lambda>(k, e). (k, without_secrets e)) ` set (Entries old_cache)
     = (\<lambda>(k, e). (k, without_secrets e)) ` set (Entries other_secrets_cache)"
    by (simp add: old_cache_def other_secrets_cache_def without_secrets_def)
  have d: "Entries old_cache \<noteq> Entries other_secrets_cache"
    by (simp add: old_cache_def other_secrets_cache_def old_entry_def old_key_def new_key_def)
  from JSON_hides_secrets [OF m i] m i d show ?thesis by blast
qed

lemma entry_key_sorted_entries:
  assumes "keys_derived pns c"
  shows "map (entry_key pns) (sorted_entries c) = sort (map fst (Entries c))"
proof -
  have "entry_key pns (index c k) = k" if "k \<in> set (sort (map fst (Entries c)))" for k
  proof -
    from that have "(k, index c k) \<in> set (Entries c)"
      by (intro index_in_cache) simp
    with assms show ?thesis
      by (auto simp add: keys_derived_def list_all_iff)
  qed
  then show ?thesis
    by (simp only: sorted_entries_alt map_map o_def map_idI)
qed

lemma sorted_entries_set:
  assumes "is_map c"
  shows "set (sorted_entries c) = snd ` set (Entries c)"
proof -
  have "index c (fst p) = snd p" if "p \<in> set (Entries c)" for p
    using index_member [OF assms, of "fst p" "snd p"] that by simp
  then have "index c ` fst ` set (Entries c) = snd ` set (Entries c)"
    by (simp add: image_image)
  then show ?thesis by (simp add: sorted_entries_alt)
qed

lemma sorted_entries_length: "length (sorted_entries c) = length (Entries c)"
  by (simp add: sorted_entries_alt)

lemma sorted_entries_Nil: "sorted_entries c = [] \<longleftrightarrow> Entries c = []"
  using sorted_entries_length [of c] by (simp only: length_0_conv [symmetric])

text \<open>
  C8: \<^verbatim>\<open>JSON()\<close> lists the entries of the cache, each once, in strictly ascending
  order of their encoded composite key: the keys of the listed entries are the sorted
  keys of the cache, and the text is the encoder's output for that list (\<^verbatim>\<open>null\<close> for
  an empty cache), each entry with its \<^verbatim>\<open>CName\<close>, \<^verbatim>\<open>SPN\<close> and four times. So two
  caches that hold the same entries give the same output, in whatever order the entries
  were inserted.
\<close>

theorem JSON_sorted_by_key:
  assumes "is_map c1" and "is_map c2" and "keys_derived pns c1"
    and "set (Entries c1) = set (Entries c2)"
  shows "sorted_wrt (<) (map (\<lambda>e. key (pns (CName e)) (pns (SName (Ticket e)))) (sorted_entries c1))
    \<and> map (\<lambda>e. key (pns (CName e)) (pns (SName (Ticket e)))) (sorted_entries c1)
        = sort (map fst (Entries c1))
    \<and> set (sorted_entries c1) = snd ` set (Entries c1)
    \<and> length (sorted_entries c1) = length (Entries c1)
    \<and> JSON M c1 =
        (case M (if Entries c1 = [] then JNull
                 else JArr (map (\<lambda>e. JObj
                   [(''CName'', JObj
                      [(''NameType'', JInt (NameType (CName e))),
                       (''NameString'',
                          if NameString (CName e) = [] then JNull
                          else JArr (map JStr (NameString (CName e))))]),
                    (''SPN'', JStr (SPN e)),
                    (''AuthTime'', JTime (AuthTime e)),
                    (''StartTime'', JTime (StartTime e)),
                    (''EndTime'', JTime (EndTime e)),
                    (''RenewTill'', JTime (RenewTill e))]) (sorted_entries c1))) [] ''  '' of
           Inl err \<Rightarrow> ([], Some err)
         | Inr b \<Rightarrow> (b, None))
    \<and> sorted_entries c1 = sorted_entries c2
    \<and> JSON M c1 = JSON M c2"
proof (intro conjI)
  have k: "map (\<lambda>e. key (pns (CName e)) (pns (SName (Ticket e)))) (sorted_entries c1)
      = sort (map fst (Entries c1))"
    using entry_key_sorted_entries [OF assms(3)] by (simp add: entry_key_def [abs_def])
  then show "map (\<lambda>e. key (pns (CName e)) (pns (SName (Ticket e)))) (sorted_entries c1)
      = sort (map fst (Entries c1))" .
  have "distinct (sort (map fst (Entries c1)))"
    using assms(1) by (simp add: is_map_def)
  then show "sorted_wrt (<) (map (\<lambda>e. key (pns (CName e)) (pns (SName (Ticket e)))) (sorted_entries c1))"
    by (simp only: k strict_sorted_iff sorted_sort simp_thms)
  show "set (sorted_entries c1) = snd ` set (Entries c1)"
    using assms(1) by (rule sorted_entries_set)
  show "length (sorted_entries c1) = length (Entries c1)"
    by (rule sorted_entries_length)
  show "JSON M c1 =
        (case M (if Entries c1 = [] then JNull
                 else JArr (map (\<lambda>e. JObj
                   [(''CName'', JObj
                      [(''NameType'', JInt (NameType (CName e))),
                       (''NameString'',
                          if NameString (CName e) = [] then JNull
                          else JArr (map JStr (NameString (CName e))))]),
                    (''SPN'', JStr (SPN e)),
                    (''AuthTime'', JTime (AuthTime e)),
                    (''StartTime'', JTime (StartTime e)),
                    (''EndTime'', JTime (EndTime e)),
                    (''RenewTill'', JTime (RenewTill e))]) (sorted_entries c1))) [] ''  '' of
           Inl err \<Rightarrow> ([], Some err)
         | Inr b \<Rightarrow> (b, None))"
    by (simp add: JSON_alt json_entries_def sorted_entries_Nil json_CacheEntry_def [abs_def]
        json_PrincipalName_def)
  have "set (map fst (Entries c1)) = set (map fst (Entries c2))"
    using assms(4) by simp
  with assms(1,2) have keys: "sort (map fst (Entries c1)) = sort (map fst (Entries c2))"
    by (intro sort_distinct_set) (simp_all add: is_map_def)
  have "map_of (Entries c1) = map_of (Entries c2)"
    using assms(1,2,4) by (simp add: is_map_def map_of_inject_set)
  then have "index c1 = index c2"
    by (simp add: index_def fun_eq_iff)
  with keys show e: "sorted_entries c1 = sorted_entries c2"
    by (simp add: sorted_entries_alt)
  then show "JSON M c1 = JSON M c2" by (simp only: JSON_alt)
qed

theorem JSON_sorted_by_key_witness:
  "is_map http_then_ldap \<and> is_map ldap_then_http \<and> keys_derived join_name http_then_ldap
   \<and> set (Entries http_then_ldap) = set (Entries ldap_then_http)
   \<and> Entries http_then_ldap \<noteq> Entries ldap_then_http
   \<and> sorted_entries http_then_ldap = [old_entry, ldap_entry]
   \<and> sorted_entries ldap_then_http = [old_entry, ldap_entry]
   \<and> map (\<lambda>e. key (join_name (CName e)) (join_name (SName (Ticket e)))) (sorted_entries http_then_ldap)
       = [''YWxpY2U=:SFRUUC9zZXJ2ZXI='', ''YWxpY2U=:bGRhcC9kYw=='']
   \<and> (\<forall>M :: jvalue \<Rightarrow> string \<Rightarrow> string \<Rightarrow> string + string.
        JSON M http_then_ldap = JSON M ldap_then_http)"
proof -
  have m: "is_map http_then_ldap" "is_map ldap_then_http"
    unfolding http_then_ldap_def ldap_then_http_def
    by (intro is_map_addEntry is_map_NewCache)+
  have k: "keys_derived join_name http_then_ldap"
    unfolding http_then_ldap_def
    by (intro keys_derived_addEntry keys_derived_NewCache)
  have s: "set (Entries http_then_ldap) = set (Entries ldap_then_http)"
    by (auto simp add: http_then_ldap_Entries ldap_then_http_Entries)
  have d: "Entries http_then_ldap \<noteq> Entries ldap_then_http"
    by (simp add: http_then_ldap_Entries ldap_then_http_Entries key_eq_iff)
  note r = JSON_sorted_by_key [OF m k s]
  have o: "sort (map fst (Entries http_then_ldap))
      = [''YWxpY2U=:SFRUUC9zZXJ2ZXI='', ''YWxpY2U=:bGRhcC9kYw=='']"
    by (simp add: http_then_ldap_Entries key_alice_http key_alice_ldap)
  from r have "map (\<lambda>e. key (join_name (CName e)) (join_name (SName (Ticket e))))
        (sorted_entries http_then_ldap)
      = sort (map fst (Entries http_then_ldap))"
    by blast
  with o have ks: "map (\<lambda>e. key (join_name (CName e)) (join_name (SName (Ticket e))))
        (sorted_entries http_then_ldap)
      = [''YWxpY2U=:SFRUUC9zZXJ2ZXI='', ''YWxpY2U=:bGRhcC9kYw=='']"
    by (simp only:)
  have e1: "sorted_entries http_then_ldap = [old_entry, ldap_entry]"
    using o by (simp add: sorted_entries_alt index_def http_then_ldap_Entries key_eq_iff
        key_alice_http [symmetric] key_alice_ldap [symmetric])
  from r have "sorted_entries http_then_ldap = sorted_entries ldap_then_http"
    by blast
  with e1 have e2: "sorted_entries ldap_then_http = [old_entry, ldap_entry]"
    by (simp only:)
  from r m k s d ks e1 e2 show ?thesis by blast
qed

end
